theory Spec2Isabelle
  imports Main "HOL-Library.Word"
begin

unbundle bit_operations_syntax

section \<open>Times, signals, errors and observable effects\<close>

text \<open>
  A \<^verbatim>\<open>time.Time\<close> is an instant on a line; \<^verbatim>\<open>time.Time{}\<close> is the least
  instant and \<^verbatim>\<open>t.Before(u)\<close> is \<open>t < u\<close>.
\<close>

type_synonym Time = nat

definition zeroTime :: Time where
  "zeroTime = 0"

definition Before :: "Time \<Rightarrow> Time \<Rightarrow> bool" where
  "Before t u = (t < u)"

datatype signal = SIGTERM | SIGKILL

datatype errno = Errno nat

definition ESRCH :: errno where
  "ESRCH = Errno 3"

text \<open>Ways in which a call does not return to its caller.\<close>

datatype abort =
    OsExit int
  | GoPanic errno
  | Blocked

text \<open>An \<^verbatim>\<open>fsnotify.Event\<close>: the path and the bit mask of operations
  (\<^verbatim>\<open>fsnotify.Create\<close> is \<^verbatim>\<open>1 << 0\<close>).\<close>

record Event =
  Name :: string
  Op :: "32 word"

definition Create :: "32 word" where
  "Create = 1"

text \<open>Arguments of a formatted log call, kept unformatted.\<close>

datatype arg = AStr string | ATime Time | AEvent Event

datatype effect =
    SyscallKill int signal
  | DebugPrint string "arg list"
  | LogPrintf string "arg list"
  | ReadDir string
  | WatcherAdd string
  | Send Time

section \<open>The process controller: \<^verbatim>\<open>wait\<close>\<close>

text \<open>
  What one \<^verbatim>\<open>syscall.Wait4(p, &status, WNOHANG, nil)\<close> gives back: the pid \<open>q\<close>,
  the value of \<^verbatim>\<open>status.ExitStatus()\<close>, and the error.
\<close>

record wait4 =
  w4_q :: int
  w4_status :: int
  w4_err :: "errno option"

text \<open>The case that a \<^verbatim>\<open>select\<close> of \<^verbatim>\<open>wait\<close> takes: a time read from
  \<^verbatim>\<open>killChan\<close>, or a tick of the 5ms ticker together with what \<^verbatim>\<open>Wait4\<close> answers.\<close>

datatype select_event = Kill Time | Tick wait4

text \<open>
  A started \<^verbatim>\<open>*exec.Cmd\<close>, as \<^verbatim>\<open>wait\<close> uses it: \<^verbatim>\<open>cmd.Process.Pid\<close>, and whether
  \<^verbatim>\<open>cmd.Wait()\<close> returns. \<^verbatim>\<open>cmd.Stdout\<close> is never an \<^verbatim>\<open>*os.File\<close>, so the output goes
  through a pipe and \<^verbatim>\<open>cmd.Wait()\<close> returns only when the copying from the pipe has
  ended, that is, when every process that holds the pipe has closed it.
\<close>

record Cmd =
  Pid :: int
  Wait_returns :: bool

datatype wait_ctl = Loop "64 word" | Returns int | Panics errno | Hangs

text \<open>One iteration of the \<^verbatim>\<open>for\<close> loop of \<^verbatim>\<open>wait\<close>; \<open>n\<close> is the Go \<^verbatim>\<open>int\<close>
  counter of the signals sent so far. After the poll that reaps the process the code
  calls \<^verbatim>\<open>cmd.Wait()\<close> and returns the status when that call returns.\<close>

definition wait_select ::
  "bool \<Rightarrow> Time \<Rightarrow> Cmd \<Rightarrow> 64 word \<Rightarrow> select_event \<Rightarrow> effect list \<times> wait_ctl" where
  "wait_select hasSetPGID start cmd n ev =
     (case ev of
        Kill t \<Rightarrow>
          if Before t start then ([], Loop n)
          else
            let p = (if hasSetPGID then - Pid cmd else Pid cmd) in
            if n = 0
            then ([DebugPrint ''Sending SIGTERM'' [], SyscallKill p SIGTERM], Loop (n + 1))
            else ([DebugPrint ''Sending SIGKILL'' [], SyscallKill p SIGKILL], Loop (n + 1))
      | Tick w \<Rightarrow>
          (case w4_err w of
             Some e \<Rightarrow> ([], Panics e)
           | None \<Rightarrow>
               if 0 < w4_q w then
                 (if Wait_returns cmd then ([], Returns (w4_status w)) else ([], Hangs))
               else ([], Loop n)))"

text \<open>The loop, over the sequence of cases its \<^verbatim>\<open>select\<close> takes. When the sequence ends
  before the process was reaped, or \<^verbatim>\<open>cmd.Wait()\<close> does not return, the call has not
  returned: \<open>Blocked\<close>.\<close>

fun wait_loop ::
  "bool \<Rightarrow> Time \<Rightarrow> Cmd \<Rightarrow> 64 word \<Rightarrow> select_event list \<Rightarrow> effect list \<times> (abort + int)" where
  "wait_loop hasSetPGID start cmd n [] = ([], Inl Blocked)"
| "wait_loop hasSetPGID start cmd n (ev # evs) =
     (case wait_select hasSetPGID start cmd n ev of
        (effs, Loop n') \<Rightarrow>
          (case wait_loop hasSetPGID start cmd n' evs of (effs', r) \<Rightarrow> (effs @ effs', r))
      | (effs, Returns s) \<Rightarrow> (effs, Inr s)
      | (effs, Panics e) \<Rightarrow> (effs, Inl (GoPanic e))
      | (effs, Hangs) \<Rightarrow> (effs, Inl Blocked))"

definition wait :: "bool \<Rightarrow> Time \<Rightarrow> Cmd \<Rightarrow> select_event list \<Rightarrow> effect list \<times> (abort + int)" where
  "wait hasSetPGID start cmd evs = wait_loop hasSetPGID start cmd 0 evs"

text \<open>The signals among the effects, in the order sent.\<close>

fun signals :: "effect list \<Rightarrow> (int \<times> signal) list" where
  "signals [] = []"
| "signals (SyscallKill p s # es) = (p, s) # signals es"
| "signals (_ # es) = signals es"

text \<open>The termination requests of a run that \<^verbatim>\<open>wait\<close> reads and accepts: those read
  before the loop ends whose time is not before the start of the run.\<close>

definition ends_wait :: "select_event \<Rightarrow> bool" where
  "ends_wait ev = (case ev of Kill t \<Rightarrow> False | Tick w \<Rightarrow> w4_err w \<noteq> None \<or> 0 < w4_q w)"

definition is_accepted :: "Time \<Rightarrow> select_event \<Rightarrow> bool" where
  "is_accepted start ev = (case ev of Kill t \<Rightarrow> \<not> Before t start | Tick w \<Rightarrow> False)"

fun consumed :: "select_event list \<Rightarrow> select_event list" where
  "consumed [] = []"
| "consumed (ev # evs) = (if ends_wait ev then [ev] else ev # consumed evs)"

definition accepted :: "Time \<Rightarrow> select_event list \<Rightarrow> select_event list" where
  "accepted start evs = filter (is_accepted start) (consumed evs)"

definition target :: "bool \<Rightarrow> int \<Rightarrow> int" where
  "target hasSetPGID pid = (if hasSetPGID then - pid else pid)"

section \<open>Package \<^verbatim>\<open>path\<close> of the Go library\<close>

text \<open>
  \<^verbatim>\<open>modTime\<close> and \<^verbatim>\<open>watchDir\<close> call \<^verbatim>\<open>path.Dir\<close> and \<^verbatim>\<open>path.Join\<close>. They are
  transcribed here from the library's source (\<^verbatim>\<open>path/path.go\<close>): strings are byte
  sequences, the output buffer of \<^verbatim>\<open>Clean\<close> is the list \<open>out\<close> (its length is the
  index \<^verbatim>\<open>out.w\<close>), and the unread part of the path is the list \<open>rest\<close>.
\<close>

text \<open>The inner loop of the \<^verbatim>\<open>..\<close> case: \<^verbatim>\<open>out.w--\<close>, then again while
  \<^verbatim>\<open>out.w > dotdot\<close> and the byte just given up is not a slash.\<close>

function backtrack :: "nat \<Rightarrow> string \<Rightarrow> string" where
  "backtrack dotdot out =
     (if dotdot < length (butlast out) \<and> last out \<noteq> CHR ''/''
      then backtrack dotdot (butlast out)
      else butlast out)"
  by pat_completeness auto
termination
  by (relation "measure (\<lambda>(dotdot, out). length out)") auto

declare backtrack.simps [simp del]

function clean_loop :: "bool \<Rightarrow> string \<Rightarrow> nat \<Rightarrow> string \<Rightarrow> string" where
  "clean_loop rooted out dotdot [] = out"
| "clean_loop rooted out dotdot (c # cs) =
     (if c = CHR ''/'' then clean_loop rooted out dotdot cs
      else if c = CHR ''.'' \<and> (cs = [] \<or> hd cs = CHR ''/'') then clean_loop rooted out dotdot cs
      else if c = CHR ''.'' \<and> hd cs = CHR ''.'' \<and> (tl cs = [] \<or> hd (tl cs) = CHR ''/'') then
        (if dotdot < length out then clean_loop rooted (backtrack dotdot out) dotdot (tl cs)
         else if \<not> rooted then
           (let out' = (if 0 < length out then out @ ''/'' else out) @ ''..''
            in clean_loop rooted out' (length out') (tl cs))
         else clean_loop rooted out dotdot (tl cs))
      else
        (let out' = (if rooted \<and> length out \<noteq> 1 \<or> \<not> rooted \<and> length out \<noteq> 0
                     then out @ ''/'' else out)
         in clean_loop rooted (out' @ c # takeWhile (\<lambda>x. x \<noteq> CHR ''/'') cs) dotdot
              (dropWhile (\<lambda>x. x \<noteq> CHR ''/'') cs)))"
  by pat_completeness auto
termination
  by (relation "measure (\<lambda>(rooted, out, dotdot, rest). length rest)")
     (auto simp add: length_dropWhile_le less_Suc_eq_le)

declare clean_loop.simps(2) [simp del]

definition path_Clean :: "string \<Rightarrow> string" where
  "path_Clean path =
     (if path = [] then ''.''
      else
        let rooted = (hd path = CHR ''/'');
            out = (if rooted then clean_loop True ''/'' 1 (tl path)
                   else clean_loop False [] 0 path)
        in if out = [] then ''.'' else out)"

text \<open>\<^verbatim>\<open>bytealg.LastIndexByteString\<close>: the scan from the end, \<open>-1\<close> when the byte is absent.\<close>

fun lastIndexByte_from :: "string \<Rightarrow> char \<Rightarrow> nat \<Rightarrow> int" where
  "lastIndexByte_from s c 0 = - 1"
| "lastIndexByte_from s c (Suc i) = (if s ! i = c then int i else lastIndexByte_from s c i)"

definition LastIndexByteString :: "string \<Rightarrow> char \<Rightarrow> int" where
  "LastIndexByteString s c = lastIndexByte_from s c (length s)"

definition path_Split :: "string \<Rightarrow> string \<times> string" where
  "path_Split path =
     (let i = LastIndexByteString path CHR ''/''
      in (take (nat (i + 1)) path, drop (nat (i + 1)) path))"

definition path_Dir :: "string \<Rightarrow> string" where
  "path_Dir path = path_Clean (fst (path_Split path))"

fun join_buf :: "string \<Rightarrow> string list \<Rightarrow> string" where
  "join_buf buf [] = buf"
| "join_buf buf (e # es) =
     (if 0 < length buf \<or> e \<noteq> []
      then join_buf ((if 0 < length buf then buf @ ''/'' else buf) @ e) es
      else join_buf buf es)"

definition path_Join :: "string list \<Rightarrow> string" where
  "path_Join elem =
     (if sum_list (map length elem) = 0 then []
      else path_Clean (join_buf [] elem))"

subsection \<open>\<^verbatim>\<open>path.Dir\<close> shortens a path or leaves it as it is\<close>

text \<open>
  \<open>trailing\<close> and \<open>slack\<close> carry the invariant of the loop of \<^verbatim>\<open>Clean\<close>: the output
  is never longer than the input read, a separator is written only for a slash that was
  read, and a final slash is never written.
\<close>

definition trailing :: "string \<Rightarrow> nat" where
  "trailing rest = (if rest \<noteq> [] \<and> last rest = CHR ''/'' then 1 else 0)"

definition slack :: "bool \<Rightarrow> string \<Rightarrow> string \<Rightarrow> nat" where
  "slack rooted out rest =
     (if (rooted \<and> length out \<noteq> 1 \<or> \<not> rooted \<and> length out \<noteq> 0) \<and>
         rest \<noteq> [] \<and> hd rest \<noteq> CHR ''/'' then 1 else 0)"

lemma backtrack_length: "length (backtrack dotdot out) \<le> length out"
proof (induction dotdot out rule: backtrack.induct)
  case (1 dotdot out)
  show ?case
  proof (cases "dotdot < length (butlast out) \<and> last out \<noteq> CHR ''/''")
    case True
    with 1 have "length (backtrack dotdot (butlast out)) \<le> length (butlast out)" by simp
    with True show ?thesis
      by (subst backtrack.simps) simp
  next
    case False
    then show ?thesis
      by (subst backtrack.simps) auto
  qed
qed

lemma slack_boundary: "rest = [] \<or> hd rest = CHR ''/'' \<Longrightarrow> slack rooted out rest = 0"
  by (auto simp add: slack_def)

lemma trailing_Cons: "cs \<noteq> [] \<Longrightarrow> trailing (c # cs) = trailing cs"
  by (simp add: trailing_def)

lemma trailing_single: "trailing [c] = (if c = CHR ''/'' then 1 else 0)"
  by (simp add: trailing_def)

lemma trailing_dropWhile:
  "trailing (dropWhile (\<lambda>x. x \<noteq> CHR ''/'') cs) = trailing cs"
proof (induction cs)
  case Nil
  show ?case by simp
next
  case (Cons a cs)
  show ?case
  proof (cases "a = CHR ''/''")
    case True
    then show ?thesis by simp
  next
    case False
    show ?thesis
    proof (cases "cs = []")
      case True
      with False show ?thesis by (simp add: trailing_def)
    next
      case False
      with \<open>a \<noteq> CHR ''/''\<close> Cons show ?thesis by (simp add: trailing_Cons)
    qed
  qed
qed

lemma dropWhile_boundary:
  "dropWhile (\<lambda>x. x \<noteq> CHR ''/'') cs = [] \<or> hd (dropWhile (\<lambda>x. x \<noteq> CHR ''/'') cs) = CHR ''/''"
  using hd_dropWhile [of "\<lambda>x. x \<noteq> CHR ''/''" cs] by auto

lemma take_drop_length:
  "length (takeWhile P cs) + length (dropWhile P cs) = length cs"
  by (metis length_append takeWhile_dropWhile_id)

lemma clean_loop_bound:
  "length (clean_loop rooted out dotdot rest) + trailing rest
     \<le> length out + length rest + slack rooted out rest"
proof (induction rooted out dotdot rest rule: clean_loop.induct)
  case (1 rooted out dotdot)
  show ?case by (simp add: trailing_def)
next
  case (2 rooted out dotdot c cs)
  let ?P = "\<lambda>x. x \<noteq> CHR ''/''"
  consider (slash) "c = CHR ''/''"
    | (dot) "c \<noteq> CHR ''/''" "c = CHR ''.'' \<and> (cs = [] \<or> hd cs = CHR ''/'')"
    | (dotdot) "c \<noteq> CHR ''/''" "\<not> (c = CHR ''.'' \<and> (cs = [] \<or> hd cs = CHR ''/''))"
        "c = CHR ''.'' \<and> hd cs = CHR ''.'' \<and> (tl cs = [] \<or> hd (tl cs) = CHR ''/'')"
    | (elem) "c \<noteq> CHR ''/''" "\<not> (c = CHR ''.'' \<and> (cs = [] \<or> hd cs = CHR ''/''))"
        "\<not> (c = CHR ''.'' \<and> hd cs = CHR ''.'' \<and> (tl cs = [] \<or> hd (tl cs) = CHR ''/''))"
    by blast
  then show ?case
  proof cases
    case slash
    then have eq: "clean_loop rooted out dotdot (c # cs) = clean_loop rooted out dotdot cs"
      by (simp add: clean_loop.simps(2))
    have ih: "length (clean_loop rooted out dotdot cs) + trailing cs
        \<le> length out + length cs + slack rooted out cs"
      using 2(1) slash by simp
    have s: "slack rooted out cs \<le> 1" by (simp add: slack_def)
    show ?thesis
    proof (cases "cs = []")
      case True
      with slash eq show ?thesis by (simp add: trailing_def)
    next
      case False
      with ih s show ?thesis unfolding eq by (simp add: trailing_Cons)
    qed
  next
    case dot
    then have eq: "clean_loop rooted out dotdot (c # cs) = clean_loop rooted out dotdot cs"
      by (simp add: clean_loop.simps(2))
    have ih: "length (clean_loop rooted out dotdot cs) + trailing cs
        \<le> length out + length cs + slack rooted out cs"
      using 2(2) dot by simp
    have s: "slack rooted out cs = 0" using dot by (simp add: slack_boundary)
    show ?thesis
    proof (cases "cs = []")
      case True
      with dot eq show ?thesis by (simp add: trailing_def)
    next
      case False
      with ih s show ?thesis unfolding eq by (simp add: trailing_Cons)
    qed
  next
    case dotdot
    from dotdot have cs: "cs \<noteq> []" "hd cs = CHR ''.''" by auto
    then obtain cs' where cs': "cs = CHR ''.'' # cs'" by (cases cs) auto
    from dotdot cs' have b: "cs' = [] \<or> hd cs' = CHR ''/''" by simp
    have t: "trailing (c # cs) = trailing cs'"
      using dotdot cs' by (cases "cs' = []") (simp_all add: trailing_def)
    have sl: "slack rooted out' cs' = 0" for out'
      using b by (rule slack_boundary)
    show ?thesis
    proof (cases "dotdot < length out")
      case True
      then have eq: "clean_loop rooted out dotdot (c # cs) =
          clean_loop rooted (backtrack dotdot out) dotdot cs'"
        using dotdot cs' by (simp add: clean_loop.simps(2))
      have "length (clean_loop rooted (backtrack dotdot out) dotdot (tl cs)) + trailing (tl cs)
          \<le> length (backtrack dotdot out) + length (tl cs) + slack rooted (backtrack dotdot out) (tl cs)"
        using 2(3) dotdot True by simp
      then show ?thesis
        unfolding eq t using backtrack_length [of dotdot out] cs' sl by simp
    next
      case False
      show ?thesis
      proof (cases rooted)
        case True
        then have eq: "clean_loop rooted out dotdot (c # cs) = clean_loop rooted out dotdot cs'"
          using dotdot cs' False by (simp add: clean_loop.simps(2))
        have "length (clean_loop rooted out dotdot (tl cs)) + trailing (tl cs)
            \<le> length out + length (tl cs) + slack rooted out (tl cs)"
          using 2(5) dotdot False True by simp
        then show ?thesis
          unfolding eq t using cs' sl by simp
      next
        case nr: False
        define out' where "out' = (if 0 < length out then out @ ''/'' else out) @ ''..''"
        have eq: "clean_loop rooted out dotdot (c # cs) = clean_loop rooted out' (length out') cs'"
          using dotdot cs' False nr by (simp add: clean_loop.simps(2) out'_def Let_def)
        have "length (clean_loop rooted out' (length out') (tl cs)) + trailing (tl cs)
            \<le> length out' + length (tl cs) + slack rooted out' (tl cs)"
          using 2(4) [OF dotdot(1) dotdot(2) dotdot(3) False nr out'_def] .
        moreover have "length out' \<le> length out + 2 + slack rooted out (c # cs)"
          using nr dotdot by (simp add: out'_def slack_def)
        ultimately show ?thesis
          unfolding eq t using cs' sl by simp
      qed
    qed
  next
    case elem
    define out' where "out' = (if rooted \<and> length out \<noteq> 1 \<or> \<not> rooted \<and> length out \<noteq> 0
                     then out @ ''/'' else out)"
    have eq: "clean_loop rooted out dotdot (c # cs) =
        clean_loop rooted (out' @ c # takeWhile ?P cs) dotdot (dropWhile ?P cs)"
      by (subst clean_loop.simps(2)) (simp only: elem if_False Let_def out'_def)
    have ih: "length (clean_loop rooted (out' @ c # takeWhile ?P cs) dotdot (dropWhile ?P cs))
          + trailing (dropWhile ?P cs)
        \<le> length (out' @ c # takeWhile ?P cs) + length (dropWhile ?P cs)
          + slack rooted (out' @ c # takeWhile ?P cs) (dropWhile ?P cs)"
      using 2(6) [OF elem(1) elem(2) elem(3)] out'_def by simp
    have sl: "slack rooted (out' @ c # takeWhile ?P cs) (dropWhile ?P cs) = 0"
      using dropWhile_boundary [of cs] by (rule slack_boundary)
    have o: "length out' \<le> length out + slack rooted out (c # cs)"
      using elem by (simp add: out'_def slack_def)
    have t: "trailing (c # cs) = trailing (dropWhile ?P cs)"
    proof (cases "cs = []")
      case True
      with elem(1) show ?thesis by (simp add: trailing_def)
    next
      case False
      then have "trailing (c # cs) = trailing cs" by (rule trailing_Cons)
      then show ?thesis by (simp only: trailing_dropWhile)
    qed
    show ?thesis
      unfolding eq t using ih sl o take_drop_length [of ?P cs] by simp
  qed
qed

definition dir_measure :: "string \<Rightarrow> nat" where
  "dir_measure p =
     (if CHR ''/'' \<in> set p then length p + 1 else if p = ''.'' then 0 else 1)"

lemma lastIndexByte_from_absent:
  "n \<le> length s \<Longrightarrow> c \<notin> set (take n s) \<Longrightarrow> lastIndexByte_from s c n = - 1"
proof (induction n)
  case 0
  show ?case by simp
next
  case (Suc n)
  then have "take (Suc n) s = take n s @ [s ! n]"
    by (simp add: take_Suc_conv_app_nth)
  with Suc show ?case by auto
qed

lemma lastIndexByte_from_present:
  "n \<le> length s \<Longrightarrow> c \<in> set (take n s) \<Longrightarrow>
   \<exists>i<n. lastIndexByte_from s c n = int i \<and> s ! i = c"
proof (induction n)
  case 0
  then show ?case by simp
next
  case (Suc n)
  show ?case
  proof (cases "s ! n = c")
    case True
    then show ?thesis by auto
  next
    case False
    from Suc.prems have "take (Suc n) s = take n s @ [s ! n]"
      by (simp add: take_Suc_conv_app_nth)
    with Suc.prems False have "c \<in> set (take n s)" by auto
    with Suc obtain i where "i < n" "lastIndexByte_from s c n = int i" "s ! i = c"
      by auto
    with False show ?thesis by auto
  qed
qed

lemma Split_no_slash: "CHR ''/'' \<notin> set p \<Longrightarrow> fst (path_Split p) = []"
  using lastIndexByte_from_absent [of "length p" p "CHR ''/''"]
  by (simp add: path_Split_def LastIndexByteString_def)

lemma Split_slash:
  assumes "CHR ''/'' \<in> set p"
  shows "fst (path_Split p) \<noteq> [] \<and> last (fst (path_Split p)) = CHR ''/'' \<and>
         length (fst (path_Split p)) \<le> length p"
proof -
  from assms obtain i where i: "i < length p" "LastIndexByteString p CHR ''/'' = int i"
      "p ! i = CHR ''/''"
    using lastIndexByte_from_present [of "length p" p "CHR ''/''"]
    by (auto simp add: LastIndexByteString_def)
  then have d: "fst (path_Split p) = take (Suc i) p"
    by (simp add: path_Split_def nat_add_distrib)
  from i have "take (Suc i) p = take i p @ [CHR ''/'']"
    by (simp add: take_Suc_conv_app_nth)
  with d i show ?thesis by simp
qed

lemma Clean_trailing_slash:
  assumes "d \<noteq> []" "last d = CHR ''/''"
  shows "path_Clean d = d \<and> d = ''/'' \<or> length (path_Clean d) < length d"
proof (cases "hd d = CHR ''/''")
  case True
  with assms obtain ds where d: "d = CHR ''/'' # ds" by (cases d) auto
  show ?thesis
  proof (cases "ds = []")
    case True
    with d show ?thesis by (simp add: path_Clean_def)
  next
    case False
    with assms d have "trailing ds = 1" by (simp add: trailing_def)
    moreover have "slack True ''/'' ds = 0" by (simp add: slack_def)
    ultimately have "length (clean_loop True ''/'' 1 ds) < length d"
      using clean_loop_bound [of True "''/''" 1 ds] d by simp
    moreover have "1 < length d" using d False by (cases ds) auto
    ultimately show ?thesis using d by (simp add: path_Clean_def Let_def)
  qed
next
  case False
  with assms have l: "1 < length d"
    by (cases d) (auto split: if_splits)
  from assms have "trailing d = 1" by (simp add: trailing_def)
  moreover have "slack False [] d = 0" by (simp add: slack_def)
  ultimately have "length (clean_loop False [] 0 d) < length d"
    using clean_loop_bound [of False "[]" 0 d] by simp
  with l False assms show ?thesis by (simp add: path_Clean_def Let_def)
qed

lemma Dir_no_slash: "CHR ''/'' \<notin> set p \<Longrightarrow> path_Dir p = ''.''"
  by (simp add: path_Dir_def Split_no_slash path_Clean_def)

lemma Dir_slash:
  assumes "CHR ''/'' \<in> set p"
  shows "path_Dir p = p \<or> length (path_Dir p) < length p"
proof -
  let ?d = "fst (path_Split p)"
  from Split_slash [OF assms] have d: "?d \<noteq> []" "last ?d = CHR ''/''" "length ?d \<le> length p"
    by simp_all
  from Clean_trailing_slash [OF d(1) d(2)] show ?thesis
  proof
    assume a: "path_Clean ?d = ?d \<and> ?d = ''/''"
    then have q: "path_Dir p = ''/''" unfolding path_Dir_def by (elim conjE) simp
    show ?thesis
    proof (cases "length p = 1")
      case True
      with assms have "p = ''/''" by (cases p) auto
      with q show ?thesis by simp
    next
      case False
      with d(3) a have "1 < length p" by simp
      with q show ?thesis by simp
    qed
  next
    assume "length (path_Clean ?d) < length ?d"
    with d(3) show ?thesis by (simp add: path_Dir_def)
  qed
qed

lemma Dir_decreases: "path_Dir p \<noteq> p \<Longrightarrow> dir_measure (path_Dir p) < dir_measure p"
proof (cases "CHR ''/'' \<in> set p")
  case True
  assume "path_Dir p \<noteq> p"
  with Dir_slash [OF True] have "length (path_Dir p) < length p" by simp
  with True show ?thesis by (cases p) (auto simp add: dir_measure_def)
next
  case False
  assume "path_Dir p \<noteq> p"
  with False show ?thesis by (auto simp add: Dir_no_slash dir_measure_def)
qed

lemma Dir_fixed_iff: "path_Dir q = q \<longleftrightarrow> q = ''/'' \<or> q = ''.''"
proof
  assume f: "path_Dir q = q"
  show "q = ''/'' \<or> q = ''.''"
  proof (cases "CHR ''/'' \<in> set q")
    case False
    with f show ?thesis by (simp add: Dir_no_slash)
  next
    case True
    let ?d = "fst (path_Split q)"
    from Split_slash [OF True] have d: "?d \<noteq> []" "last ?d = CHR ''/''" "length ?d \<le> length q"
      by simp_all
    from Clean_trailing_slash [OF d(1) d(2)] f d(3) have "path_Clean ?d = ?d \<and> ?d = ''/''"
      by (auto simp add: path_Dir_def)
    then have "path_Dir q = ''/''" unfolding path_Dir_def by (elim conjE) simp
    with f show ?thesis by simp
  qed
next
  assume "q = ''/'' \<or> q = ''.''"
  moreover have "path_Dir ''/'' = ''/''" by code_simp
  moreover have "path_Dir ''.'' = ''.''" by code_simp
  ultimately show "path_Dir q = q" by auto
qed

section \<open>The file system and the watcher, as the program sees them\<close>

text \<open>
  What a call into the operating system answers: a value, an error for which
  \<^verbatim>\<open>os.IsNotExist\<close> holds, or another error with its message. \<open>world\<close> is the state of
  the file system and of the watcher while one event is handled: what \<^verbatim>\<open>os.Stat\<close>,
  \<^verbatim>\<open>ioutil.ReadDir\<close> (the names of the entries; \<^verbatim>\<open>nil\<close> on an error) and \<^verbatim>\<open>w.Add\<close> answer
  for each path.
\<close>

datatype 'a result = Ok 'a | NotExist | Failed string

record FileInfo =
  ModTime :: Time
  IsDir :: bool

record world =
  os_Stat :: "string \<Rightarrow> FileInfo result"
  ioutil_ReadDir :: "string \<Rightarrow> string list result"
  w_Add :: "string \<Rightarrow> unit result"

type_synonym error = string

text \<open>\<^verbatim>\<open>excludeRe != nil && excludeRe.MatchString(p)\<close>; the compiled expression is the
  predicate it decides.\<close>

definition excluded :: "(string \<Rightarrow> bool) option \<Rightarrow> string \<Rightarrow> bool" where
  "excluded excludeRe p = (case excludeRe of None \<Rightarrow> False | Some re \<Rightarrow> re p)"

function modTime :: "world \<Rightarrow> string \<Rightarrow> error + Time" where
  "modTime fs p =
     (case os_Stat fs p of
        NotExist \<Rightarrow>
          (let q = path_Dir p in
           if q = p then Inl (''Failed to find directory for '' @ p)
           else modTime fs q)
      | Failed err \<Rightarrow> Inl err
      | Ok s \<Rightarrow> Inr (ModTime s))"
  by pat_completeness auto
termination
  by (relation "measure (\<lambda>(fs, p). dir_measure p)") (auto simp add: Dir_decreases)

declare modTime.simps [simp del]

definition isDir :: "world \<Rightarrow> string \<Rightarrow> error + bool" where
  "isDir fs p =
     (case os_Stat fs p of
        NotExist \<Rightarrow> Inr False
      | Failed err \<Rightarrow> Inl err
      | Ok s \<Rightarrow> Inr (IsDir s))"

definition watch :: "world \<Rightarrow> string \<Rightarrow> effect list" where
  "watch fs p =
     DebugPrint ''Watching %s'' [AStr p] # WatcherAdd p #
     (case w_Add fs p of
        NotExist \<Rightarrow> [DebugPrint ''%s no longer exists'' [AStr p]]
      | Failed err \<Rightarrow> [LogPrintf ''Failed to watch %s: %s'' [AStr p, AStr err]]
      | Ok u \<Rightarrow> [])"


text \<open>
  The loop of \<^verbatim>\<open>watchDir\<close> over the entries of \<open>p\<close>; \<open>rec\<close> is the recursive call.
  \<^verbatim>\<open>watchDir\<close> follows the directory tree, which the program does not bound, so its
  model counts the nested calls it may still make: \<open>None\<close> when the count is used up.
\<close>

fun watchDir_ents ::
  "(string \<Rightarrow> effect list option) \<Rightarrow> (string \<Rightarrow> bool) option \<Rightarrow> world \<Rightarrow> string \<Rightarrow>
   string list \<Rightarrow> effect list option" where
  "watchDir_ents rec excludeRe fs p [] = Some []"
| "watchDir_ents rec excludeRe fs p (e # es) =
     (let sub = path_Join [p, e] in
      if excluded excludeRe sub then
        map_option ((#) (DebugPrint ''excluding %s'' [AStr sub]))
          (watchDir_ents rec excludeRe fs p es)
      else
        (case isDir fs sub of
           Inl err \<Rightarrow>
             map_option ((#) (LogPrintf ''Failed to watch %s: %s'' [AStr sub, AStr err]))
               (watchDir_ents rec excludeRe fs p es)
         | Inr True \<Rightarrow>
             (case rec sub of
                None \<Rightarrow> None
              | Some effs \<Rightarrow> map_option ((@) effs) (watchDir_ents rec excludeRe fs p es))
         | Inr False \<Rightarrow> watchDir_ents rec excludeRe fs p es))"

fun watchDir :: "nat \<Rightarrow> (string \<Rightarrow> bool) option \<Rightarrow> world \<Rightarrow> string \<Rightarrow> effect list option" where
  "watchDir 0 excludeRe fs p = None"
| "watchDir (Suc fuel) excludeRe fs p =
     (case ioutil_ReadDir fs p of
        NotExist \<Rightarrow> Some [ReadDir p]
      | Failed err \<Rightarrow>
          map_option
            (\<lambda>effs. ReadDir p # LogPrintf ''Failed to watch %s: %s'' [AStr p, AStr err] #
                      effs @ watch fs p)
            (watchDir_ents (\<lambda>sub. watchDir fuel excludeRe fs sub) excludeRe fs p [])
      | Ok ents \<Rightarrow>
          map_option (\<lambda>effs. ReadDir p # effs @ watch fs p)
            (watchDir_ents (\<lambda>sub. watchDir fuel excludeRe fs sub) excludeRe fs p ents))"


text \<open>One iteration of the loop of \<^verbatim>\<open>sendChanges\<close>, for what its \<^verbatim>\<open>select\<close> receives.
  \<open>Some (effs, None)\<close>: the iteration is over and the loop goes on.\<close>

datatype watcher_msg = Errors string | Events Event

definition sendChanges_select ::
  "nat \<Rightarrow> (string \<Rightarrow> bool) option \<Rightarrow> world \<Rightarrow> watcher_msg \<Rightarrow> (effect list \<times> abort option) option" where
  "sendChanges_select fuel excludeRe fs msg =
     (case msg of
        Errors err \<Rightarrow> Some ([LogPrintf ''Watcher error: %s\<newline>'' [AStr err]], Some (OsExit 1))
      | Events ev \<Rightarrow>
          if excluded excludeRe (Name ev) then
            Some ([DebugPrint ''ignoring event for excluded %s'' [AStr (Name ev)]], None)
          else
            (case modTime fs (Name ev) of
               Inl err \<Rightarrow> Some ([LogPrintf ''Failed to get even time: %s'' [AStr err]], None)
             | Inr time \<Rightarrow>
                 (let dbg = [DebugPrint ''%s at %s'' [AEvent ev, ATime time]] in
                  if Op ev AND Create \<noteq> 0 then
                    (case isDir fs (Name ev) of
                       Inl err \<Rightarrow>
                         Some (dbg @ [LogPrintf ''Couldn't check if %s is a directory: %s''
                                        [AStr (Name ev), AStr err]], None)
                     | Inr True \<Rightarrow>
                         (case watchDir fuel excludeRe fs (Name ev) of
                            None \<Rightarrow> None
                          | Some effs \<Rightarrow> Some (dbg @ effs @ [Send time], None))
                     | Inr False \<Rightarrow> Some (dbg @ [Send time], None))
                  else Some (dbg @ [Send time], None))))"

section \<open>Running the command: \<^verbatim>\<open>run\<close> and the loop of \<^verbatim>\<open>main\<close>\<close>

fun strings_Join :: "string list \<Rightarrow> string \<Rightarrow> string" where
  "strings_Join [] sep = []"
| "strings_Join [a] sep = a"
| "strings_Join (a # b # cs) sep = a @ sep @ strings_Join (b # cs) sep"

text \<open>\<^verbatim>\<open>strconv.Itoa\<close>: the decimal digits, after a minus sign for a negative number.\<close>

function digits :: "nat \<Rightarrow> string" where
  "digits n =
     (if n < 10 then [char_of (48 + n)]
      else digits (n div 10) @ [char_of (48 + n mod 10)])"
  by pat_completeness auto
termination
  by (relation "measure (\<lambda>n. n)") auto

declare digits.simps [simp del]

definition Itoa :: "int \<Rightarrow> string" where
  "Itoa i = (if i < 0 then CHR ''-'' # digits (nat (- i)) else digits (nat i))"

text \<open>
  What one call of \<^verbatim>\<open>run\<close> meets: the arguments of the command line, whether the
  platform has \<^verbatim>\<open>Setpgid\<close>, the clock read at line 128, what \<^verbatim>\<open>cmd.Start\<close> answers (an
  error, or the started command), the bytes the command writes to \<^verbatim>\<open>out\<close>
  until it is reaped, the cases the \<^verbatim>\<open>select\<close> of \<^verbatim>\<open>wait\<close> takes, the clock read at
  line 136 and at line 139, and the rendering \<^verbatim>\<open>Time.String\<close>.
\<close>

record run_env =
  Args :: "string list"
  hasSetPGID :: bool
  now_start :: Time
  cmd_Start :: "error + Cmd"
  cmd_output :: string
  selects :: "select_event list"
  now_done :: Time
  now_return :: Time
  Time_String :: "Time \<Rightarrow> string"

text \<open>\<^verbatim>\<open>run\<close>: the bytes written to the display, the effects, and the time returned or
  the way the call ends otherwise.\<close>

definition run :: "run_env \<Rightarrow> string \<times> effect list \<times> (abort + Time)" where
  "run env =
     (let echo = strings_Join (Args env) '' '' @ ''\<newline>'' in
      case cmd_Start env of
        Inl err \<Rightarrow> (echo @ ''fatal: '' @ err @ ''\<newline>'', [], Inl (OsExit 1))
      | Inr cmd \<Rightarrow>
          (case wait (hasSetPGID env) (now_start env) cmd (selects env) of
             (effs, Inl a) \<Rightarrow> (echo @ cmd_output env, effs, Inl a)
           | (effs, Inr s) \<Rightarrow>
               (echo @ cmd_output env @
                  (if s \<noteq> 0 then ''exit status '' @ Itoa s @ ''\<newline>'' else []) @
                  Time_String env (now_done env) @ ''\<newline>'',
                effs, Inr (now_return env))))"

text \<open>
  The state of the loop of \<^verbatim>\<open>main\<close>, with the timers of the runtime. \<open>pending\<close> maps
  each armed timer to the instant at which it is due; \<open>timer\<close> is the \<^verbatim>\<open>*time.Timer\<close>
  that the variable \<^verbatim>\<open>timer\<close> holds, and \<open>timer_C\<close> says that its channel \<^verbatim>\<open>timer.C\<close>
  (of capacity one) holds a value. Times are in nanoseconds, as a \<^verbatim>\<open>time.Duration\<close> is.
\<close>

record main_state =
  lastRun :: Time
  lastChange :: Time
  timer :: nat
  pending :: "nat \<rightharpoonup> Time"
  timer_C :: bool

definition rebuildDelay :: nat where
  "rebuildDelay = 200 * 1000000"

text \<open>\<^verbatim>\<open>t.Reset(d)\<close> at the instant \<open>now\<close>: the timer \<open>t\<close> is due \<open>d\<close> from now, whatever it
  was before; the channel is left as it is.\<close>

definition Timer_Reset :: "nat \<Rightarrow> Time \<Rightarrow> nat \<Rightarrow> (nat \<rightharpoonup> Time) \<Rightarrow> (nat \<rightharpoonup> Time)" where
  "Timer_Reset t now d tbl = tbl(t \<mapsto> now + d)"

text \<open>The state before the loop: \<^verbatim>\<open>time.NewTimer(0)\<close> at the instant \<open>t0\<close> arms the first
  timer of the runtime, \<^verbatim>\<open>lastRun\<close> is \<^verbatim>\<open>time.Time{}\<close>, and \<^verbatim>\<open>lastChange\<close> is the clock
  read at \<open>t1\<close>.\<close>

definition main_init :: "Time \<Rightarrow> Time \<Rightarrow> main_state" where
  "main_init t0 t1 =
     \<lparr>lastRun = zeroTime, lastChange = t1, timer = 0, pending = [0 \<mapsto> t0 + 0], timer_C = False\<rparr>"

text \<open>What the runtime has done by the instant \<open>now\<close>: every timer that is due is no longer
  pending, and if the timer of \<^verbatim>\<open>main\<close> was among them its channel holds a value.\<close>

definition expire :: "Time \<Rightarrow> main_state \<Rightarrow> main_state" where
  "expire now st =
     st\<lparr>pending := (\<lambda>t. case pending st t of
                           None \<Rightarrow> None
                         | Some due \<Rightarrow> if due \<le> now then None else Some due),
        timer_C := (timer_C st \<or>
                    (case pending st (timer st) of None \<Rightarrow> False | Some due \<Rightarrow> due \<le> now))\<rparr>"

datatype main_event = Changes Time | Rerun | TimerC

text \<open>The case \<^verbatim>\<open><-timer.C\<close> can be taken only when the channel holds a value; the other
  two when the watcher or the display sends.\<close>

definition select_enabled :: "main_state \<Rightarrow> main_event \<Rightarrow> bool" where
  "select_enabled st ev = (case ev of Changes t \<Rightarrow> True | Rerun \<Rightarrow> True | TimerC \<Rightarrow> timer_C st)"

text \<open>The case of the \<^verbatim>\<open>select\<close> of \<^verbatim>\<open>main\<close> that is taken at the instant \<open>now\<close>; \<open>env\<close>
  is what a call of \<^verbatim>\<open>run\<close> made in this iteration meets.\<close>

definition main_select ::
  "Time \<Rightarrow> run_env \<Rightarrow> main_state \<Rightarrow> main_event \<Rightarrow> string \<times> effect list \<times> (abort + main_state)" where
  "main_select now env st ev =
     (case ev of
        Changes t \<Rightarrow>
          ([], [],
           Inr (st\<lparr>lastChange := t,
                   pending := Timer_Reset (timer st) now rebuildDelay (pending st)\<rparr>))
      | Rerun \<Rightarrow>
          (case run env of
             (out, effs, Inl a) \<Rightarrow> (out, effs, Inl a)
           | (out, effs, Inr t) \<Rightarrow> (out, effs, Inr (st\<lparr>lastRun := t\<rparr>)))
      | TimerC \<Rightarrow>
          (let st' = st\<lparr>timer_C := False\<rparr> in
           if Before (lastRun st') (lastChange st') then
             (case run env of
                (out, effs, Inl a) \<Rightarrow> (out, effs, Inl a)
              | (out, effs, Inr t) \<Rightarrow> (out, effs, Inr (st'\<lparr>lastRun := t\<rparr>)))
           else ([], [], Inr st')))"

text \<open>One iteration of the loop, and the loop over the cases its \<^verbatim>\<open>select\<close> takes, each
  with its instant and with what a call of \<^verbatim>\<open>run\<close> meets there. \<open>None\<close>: a case is taken
  that cannot be; the loop ends where an iteration does not return.\<close>

definition main_iter ::
  "Time \<Rightarrow> run_env \<Rightarrow> main_state \<Rightarrow> main_event \<Rightarrow>
   (string \<times> effect list \<times> (abort + main_state)) option" where
  "main_iter now env st ev =
     (let st' = expire now st in
      if select_enabled st' ev then Some (main_select now env st' ev) else None)"

fun main_loop ::
  "main_state \<Rightarrow> (Time \<times> run_env \<times> main_event) list \<Rightarrow>
   (string \<times> effect list \<times> (abort + main_state)) option" where
  "main_loop st [] = Some ([], [], Inr st)"
| "main_loop st ((now, env, ev) # rest) =
     (case main_iter now env st ev of
        None \<Rightarrow> None
      | Some (out, effs, Inl a) \<Rightarrow> Some (out, effs, Inl a)
      | Some (out, effs, Inr st') \<Rightarrow>
          (case main_loop st' rest of
             None \<Rightarrow> None
           | Some (out', effs', r) \<Rightarrow> Some (out @ out', effs @ effs', r)))"

section \<open>Notions used to state the properties\<close>

text \<open>\<^verbatim>\<open>modTime\<close> with a count of the calls it may still make: \<open>None\<close> when the
  count is used up before the recursion ends.\<close>

fun modTime_calls :: "nat \<Rightarrow> world \<Rightarrow> string \<Rightarrow> (error + Time) option" where
  "modTime_calls 0 fs p = None"
| "modTime_calls (Suc n) fs p =
     (case os_Stat fs p of
        NotExist \<Rightarrow>
          (let q = path_Dir p in
           if q = p then Some (Inl (''Failed to find directory for '' @ p))
           else modTime_calls n fs q)
      | Failed err \<Rightarrow> Some (Inl err)
      | Ok s \<Rightarrow> Some (Inr (ModTime s)))"

text \<open>The \<open>k\<close>-th parent of a path; \<open>recurses fs p k\<close>: \<^verbatim>\<open>modTime\<close> called on \<open>p\<close>
  makes at least \<open>k\<close> recursive calls (each of the first \<open>k\<close> paths is missing and differs
  from its parent); \<open>answer fs q\<close>: what \<^verbatim>\<open>modTime\<close> returns when it stops at \<open>q\<close>.\<close>

definition ancestor :: "nat \<Rightarrow> string \<Rightarrow> string" where
  "ancestor k p = (path_Dir ^^ k) p"

definition recurses :: "world \<Rightarrow> string \<Rightarrow> nat \<Rightarrow> bool" where
  "recurses fs p k =
     (\<forall>j<k. os_Stat fs (ancestor j p) = NotExist \<and> ancestor (Suc j) p \<noteq> ancestor j p)"

definition answer :: "world \<Rightarrow> string \<Rightarrow> error + Time" where
  "answer fs q =
     (case os_Stat fs q of
        NotExist \<Rightarrow> Inl (''Failed to find directory for '' @ q)
      | Failed err \<Rightarrow> Inl err
      | Ok s \<Rightarrow> Inr (ModTime s))"

text \<open>A small file system: a directory \<open>x\<close> with the directories \<open>.git\<close> and \<open>a\<close> (which
  holds the directory \<open>b\<close>), the file \<open>f\<close> and the entry \<open>bad\<close>, which cannot be examined.\<close>

definition example_fs :: world where
  "example_fs =
     \<lparr>os_Stat = (\<lambda>p. if p = ''x'' \<or> p = ''x/a'' \<or> p = ''x/a/b'' \<or> p = ''x/.git''
                       then Ok \<lparr>ModTime = 5, IsDir = True\<rparr>
                     else if p = ''x/f'' then Ok \<lparr>ModTime = 7, IsDir = False\<rparr>
                     else if p = ''x/bad'' then Failed ''permission denied''
                     else NotExist),
      ioutil_ReadDir = (\<lambda>p. if p = ''x'' then Ok [''.git'', ''a'', ''bad'', ''f'']
                              else if p = ''x/a'' then Ok [''b'']
                              else if p = ''x/a/b'' \<or> p = ''x/.git'' then Ok []
                              else NotExist),
      w_Add = (\<lambda>p. Ok ())\<rparr>"


text \<open>The directories of the tree below \<open>root\<close>: \<open>root\<close>, and every entry of a directory
  of the tree that is not excluded and is a directory.\<close>

inductive in_tree :: "(string \<Rightarrow> bool) option \<Rightarrow> world \<Rightarrow> string \<Rightarrow> string \<Rightarrow> bool"
  for excludeRe fs root where
  in_tree_root: "in_tree excludeRe fs root root"
| in_tree_sub:
    "in_tree excludeRe fs root q \<Longrightarrow> ioutil_ReadDir fs q = Ok ents \<Longrightarrow> e \<in> set ents \<Longrightarrow>
     \<not> excluded excludeRe (path_Join [q, e]) \<Longrightarrow> isDir fs (path_Join [q, e]) = Inr True \<Longrightarrow>
     in_tree excludeRe fs root (path_Join [q, e])"

code_pred in_tree .


text \<open>The times a list of effects sends on \<^verbatim>\<open>changes\<close>.\<close>

fun sends :: "effect list \<Rightarrow> Time list" where
  "sends [] = []"
| "sends (Send t # es) = t # sends es"
| "sends (_ # es) = sends es"

text \<open>The directories below \<open>p\<close> that \<^verbatim>\<open>watchDir\<close> enters are nested at most \<open>d\<close> deep.\<close>

fun nested_le :: "nat \<Rightarrow> (string \<Rightarrow> bool) option \<Rightarrow> world \<Rightarrow> string \<Rightarrow> bool" where
  "nested_le 0 excludeRe fs p =
     (\<forall>e\<in>set (case ioutil_ReadDir fs p of Ok ents \<Rightarrow> ents | NotExist \<Rightarrow> [] | Failed err \<Rightarrow> []).
        excluded excludeRe (path_Join [p, e]) \<or> isDir fs (path_Join [p, e]) \<noteq> Inr True)"
| "nested_le (Suc d) excludeRe fs p =
     (\<forall>e\<in>set (case ioutil_ReadDir fs p of Ok ents \<Rightarrow> ents | NotExist \<Rightarrow> [] | Failed err \<Rightarrow> []).
        excluded excludeRe (path_Join [p, e]) \<or> isDir fs (path_Join [p, e]) \<noteq> Inr True \<or>
        nested_le d excludeRe fs (path_Join [p, e]))"

text \<open>The time of the last change among the cases taken, \<open>t\<close> if there is none.\<close>

fun last_change :: "Time \<Rightarrow> (Time \<times> run_env \<times> main_event) list \<Rightarrow> Time" where
  "last_change t [] = t"
| "last_change t ((now, env, Changes u) # rest) = last_change u rest"
| "last_change t ((now, env, Rerun) # rest) = last_change t rest"
| "last_change t ((now, env, TimerC) # rest) = last_change t rest"

text \<open>The signals of a run in which \<open>k\<close> termination requests were accepted, as the
  escalation policy has them: one \<open>SIGTERM\<close>, then \<open>SIGKILL\<close> only.\<close>

definition escalation :: "int \<Rightarrow> nat \<Rightarrow> (int \<times> signal) list" where
  "escalation p k = (if k = 0 then [] else (p, SIGTERM) # replicate (k - 1) (p, SIGKILL))"

text \<open>A termination request is stale for a run when it was stamped before the run started.\<close>

definition stale :: "Time \<Rightarrow> select_event \<Rightarrow> bool" where
  "stale start ev = (case ev of Kill t \<Rightarrow> Before t start | Tick w \<Rightarrow> False)"

text \<open>Four runs: \<^verbatim>\<open>echo hi\<close>, reaped with status 0 at the second poll; a command
  that cannot be started; \<^verbatim>\<open>echo hi\<close> reaped while another process keeps its output pipe
  open; and \<^verbatim>\<open>echo hi\<close> polled twice while it is still running.\<close>

definition example_env :: run_env where
  "example_env =
     \<lparr>Args = [''echo'', ''hi''], hasSetPGID = True, now_start = 2001, cmd_Start = Inr \<lparr>Pid = 7, Wait_returns = True\<rparr>,
      cmd_output = ''hi\<newline>'',
      selects = [Tick \<lparr>w4_q = 0, w4_status = 0, w4_err = None\<rparr>,
                 Tick \<lparr>w4_q = 7, w4_status = 0, w4_err = None\<rparr>],
      now_done = 2950, now_return = 2951,
      Time_String = (\<lambda>t. ''at '' @ Itoa (int t))\<rparr>"

definition example_env_nostart :: run_env where
  "example_env_nostart =
     \<lparr>Args = [''./build'', ''-v''], hasSetPGID = True, now_start = 2001,
      cmd_Start = Inl ''fork/exec ./build: permission denied'',
      cmd_output = [], selects = [], now_done = 2001, now_return = 2001,
      Time_String = (\<lambda>t. ''at '' @ Itoa (int t))\<rparr>"

definition example_env_pipe_held :: run_env where
  "example_env_pipe_held =
     example_env\<lparr>cmd_Start := Inr \<lparr>Pid = 7, Wait_returns = False\<rparr>\<rparr>"

definition example_env_running :: run_env where
  "example_env_running =
     example_env\<lparr>selects := [Tick \<lparr>w4_q = 0, w4_status = 0, w4_err = None\<rparr>,
                             Tick \<lparr>w4_q = 0, w4_status = 0, w4_err = None\<rparr>]\<rparr>"

section \<open>Properties of \<^verbatim>\<open>wait\<close>\<close>

lemma signals_append: "signals (xs @ ys) = signals xs @ signals ys"
  by (induction xs rule: signals.induct) auto

lemma word64_succ_nonzero:
  assumes "unat (n :: 64 word) + 1 < 2 ^ 64"
  shows "n + 1 \<noteq> 0"
proof
  assume z: "n + 1 = 0"
  have "unat (n + 1) = (unat n + 1) mod 2 ^ 64"
    by (simp add: unat_word_ariths)
  also have "\<dots> = unat n + 1"
    using assms by simp
  finally have "unat (n + 1) \<noteq> 0" by simp
  with z show False by simp
qed

lemma word64_succ_unat:
  assumes "unat (n :: 64 word) + 1 < 2 ^ 64"
  shows "unat (n + 1) = unat n + 1"
proof -
  have "unat (n + 1) = (unat n + 1) mod 2 ^ 64"
    by (simp add: unat_word_ariths)
  also have "\<dots> = unat n + 1"
    using assms by simp
  finally show ?thesis .
qed

lemma wait_loop_Loop:
  "wait_select hs start cmd n ev = (effs, Loop n') \<Longrightarrow>
   wait_loop hs start cmd n' evs = (effs', r) \<Longrightarrow>
   wait_loop hs start cmd n (ev # evs) = (effs @ effs', r)"
  by simp

lemma wait_loop_signals:
  "unat n + length (accepted start evs) < 2 ^ 64 \<Longrightarrow>
   signals (fst (wait_loop hs start cmd n evs)) =
     (if n = 0 then escalation (target hs (Pid cmd)) (length (accepted start evs))
      else replicate (length (accepted start evs)) (target hs (Pid cmd), SIGKILL))"
proof (induction evs arbitrary: n)
  case Nil
  then show ?case by (simp add: accepted_def escalation_def)
next
  case (Cons ev evs)
  show ?case
  proof (cases ev)
    case (Kill t)
    show ?thesis
    proof (cases "t < start")
      case True
      with Kill have acc: "accepted start (ev # evs) = accepted start evs"
        by (simp add: accepted_def ends_wait_def is_accepted_def Before_def)
      from True Kill have step: "wait_select hs start cmd n ev = ([], Loop n)"
        by (simp add: wait_select_def Before_def)
      from Cons.prems acc have "unat n + length (accepted start evs) < 2 ^ 64" by simp
      from Cons.IH [OF this] show ?thesis
        using acc step by (cases "wait_loop hs start cmd n evs") simp
    next
      case False
      with Kill have acc: "accepted start (ev # evs) = ev # accepted start evs"
        by (simp add: accepted_def ends_wait_def is_accepted_def Before_def)
      with Cons.prems have b: "unat n + 1 < 2 ^ 64"
        and b': "unat (n + 1) + length (accepted start evs) < 2 ^ 64"
        using word64_succ_unat [of n] by simp_all
      from b have nz: "n + 1 \<noteq> 0" by (rule word64_succ_nonzero)
      from Cons.IH [OF b'] nz
      have ih: "signals (fst (wait_loop hs start cmd (n + 1) evs)) =
        replicate (length (accepted start evs)) (target hs (Pid cmd), SIGKILL)" by simp
      obtain effs' r where rec: "wait_loop hs start cmd (n + 1) evs = (effs', r)"
        by (cases "wait_loop hs start cmd (n + 1) evs")
      with ih have ih': "signals effs' = replicate (length (accepted start evs)) (target hs (Pid cmd), SIGKILL)"
        by simp
      obtain effs where step: "wait_select hs start cmd n ev = (effs, Loop (n + 1))"
        and sig: "signals effs = [(target hs (Pid cmd), if n = 0 then SIGTERM else SIGKILL)]"
        using False Kill by (cases "n = 0") (simp_all add: wait_select_def Before_def target_def Let_def)
      have "wait_loop hs start cmd n (ev # evs) = (effs @ effs', r)"
        using step rec by (rule wait_loop_Loop)
      then show ?thesis
        using acc ih' sig by (simp add: escalation_def signals_append)
    qed
  next
    case (Tick w)
    show ?thesis
    proof (cases "ends_wait ev")
      case True
      with Tick have acc: "accepted start (ev # evs) = []"
        by (simp add: accepted_def is_accepted_def)
      from True Tick show ?thesis
        using acc by (auto simp add: wait_select_def ends_wait_def escalation_def split: option.splits)
    next
      case False
      with Tick have acc: "accepted start (ev # evs) = accepted start evs"
        by (simp add: accepted_def is_accepted_def)
      from False Tick have step: "wait_select hs start cmd n ev = ([], Loop n)"
        by (auto simp add: wait_select_def ends_wait_def split: option.splits)
      from Cons.prems acc have "unat n + length (accepted start evs) < 2 ^ 64" by simp
      from Cons.IH [OF this] show ?thesis
        using acc step by (cases "wait_loop hs start cmd n evs") simp
    qed
  qed
qed

lemma escalation_length: "length (escalation p k) = k"
  by (simp add: escalation_def)

lemma escalation_nth:
  "i < k \<Longrightarrow> escalation p k ! i = (p, if i = 0 then SIGTERM else SIGKILL)"
  by (cases i) (simp_all add: escalation_def)

lemma escalation_once:
  "length (filter (\<lambda>s. snd s = SIGTERM) (escalation p k)) \<le> Suc 0"
  by (simp add: escalation_def filter_replicate)

text \<open>
  Claim C3. Within one execution of \<^verbatim>\<open>wait\<close> the accepted termination requests are
  answered one signal each, to the process (or its group): the first by \<open>SIGTERM\<close>, every
  later one by \<open>SIGKILL\<close>, and \<open>SIGTERM\<close> is sent at most once. The counter \<open>n\<close> is a
  64-bit Go \<^verbatim>\<open>int\<close>, so the run is one with fewer than \<open>2 ^ 64\<close> accepted requests.
\<close>

theorem wait_escalates:
  assumes "length (accepted start evs) < 2 ^ 64"
  shows "length (signals (fst (wait hs start cmd evs))) = length (accepted start evs) \<and>
         (\<forall>i < length (accepted start evs).
            signals (fst (wait hs start cmd evs)) ! i =
              (target hs (Pid cmd), if i = 0 then SIGTERM else SIGKILL)) \<and>
         length (filter (\<lambda>s. snd s = SIGTERM) (signals (fst (wait hs start cmd evs)))) \<le> 1"
proof -
  have "signals (fst (wait hs start cmd evs)) =
        escalation (target hs (Pid cmd)) (length (accepted start evs))"
    unfolding wait_def using wait_loop_signals [of 0 start evs hs cmd] assms by simp
  then show ?thesis
    by (simp add: escalation_length escalation_nth escalation_once)
qed

theorem wait_escalates_witness:
  "length (accepted 10 [Kill 5, Kill 12, Tick \<lparr>w4_q = 0, w4_status = 0, w4_err = None\<rparr>, Kill 13, Kill 14,
       Tick \<lparr>w4_q = 7, w4_status = 0, w4_err = None\<rparr>, Kill 15]) < 2 ^ 64 \<and>
   signals (fst (wait True 10 \<lparr>Pid = 7, Wait_returns = True\<rparr> [Kill 5, Kill 12, Tick \<lparr>w4_q = 0, w4_status = 0, w4_err = None\<rparr>, Kill 13, Kill 14,
       Tick \<lparr>w4_q = 7, w4_status = 0, w4_err = None\<rparr>, Kill 15]))
     = [(-7, SIGTERM), (-7, SIGKILL), (-7, SIGKILL)]"
  using wait_escalates [of 10 "[Kill 5, Kill 12, Tick \<lparr>w4_q = 0, w4_status = 0, w4_err = None\<rparr>, Kill 13, Kill 14,
       Tick \<lparr>w4_q = 7, w4_status = 0, w4_err = None\<rparr>, Kill 15]" True "\<lparr>Pid = 7, Wait_returns = True\<rparr>"]
  by (simp add: accepted_def is_accepted_def ends_wait_def wait_def wait_select_def Before_def)

lemma wait_loop_drop_stale:
  "wait_loop hs start cmd n (filter (\<lambda>ev. \<not> stale start ev) evs) = wait_loop hs start cmd n evs"
proof (induction evs arbitrary: n)
  case Nil
  show ?case by simp
next
  case (Cons ev evs)
  show ?case
  proof (cases "stale start ev")
    case True
    then have "wait_select hs start cmd n ev = ([], Loop n)"
      by (cases ev) (simp_all add: stale_def wait_select_def)
    with True Cons.IH [of n] show ?thesis
      by (cases "wait_loop hs start cmd n evs") simp
  next
    case False
    with Cons.IH show ?thesis
      by (simp split: prod.splits wait_ctl.splits)
  qed
qed

text \<open>
  Claim C9. A kill notification stamped before the start of the current run sends no signal
  and leaves the counter \<open>n\<close> as it was: the iteration has no effect, the loop goes on as
  if the notification had not been read, and a whole run is the same with its stale
  notifications removed.
\<close>

theorem wait_ignores_stale:
  assumes "Before t start"
  shows "wait_select hs start cmd n (Kill t) = ([], Loop n) \<and>
         wait_loop hs start cmd n (Kill t # evs) = wait_loop hs start cmd n evs \<and>
         wait hs start cmd (filter (\<lambda>ev. \<not> stale start ev) evs) = wait hs start cmd evs"
proof -
  from assms have s: "wait_select hs start cmd n (Kill t) = ([], Loop n)"
    by (simp add: wait_select_def)
  then have "wait_loop hs start cmd n (Kill t # evs) = wait_loop hs start cmd n evs"
    by (cases "wait_loop hs start cmd n evs") simp
  with s show ?thesis
    by (simp add: wait_def wait_loop_drop_stale)
qed

theorem wait_ignores_stale_witness:
  "Before 5 10 \<and>
   wait_select True 10 \<lparr>Pid = 7, Wait_returns = True\<rparr> 1 (Kill 5) = ([], Loop 1) \<and>
   signals (fst (wait True 10 \<lparr>Pid = 7, Wait_returns = True\<rparr> [Kill 5, Kill 6, Kill 11])) = [(- 7, SIGTERM)]"
  using wait_ignores_stale [of 5 10 True "\<lparr>Pid = 7, Wait_returns = True\<rparr>" 1 "[Kill 5, Kill 6, Kill 11]"]
  by (simp add: Before_def stale_def wait_def wait_select_def)

lemma wait_select_continues:
  "\<not> ends_wait ev \<Longrightarrow> \<exists>effs n'. wait_select hs start cmd n ev = (effs, Loop n')"
  by (cases ev) (auto simp add: ends_wait_def wait_select_def Let_def split: option.splits)

lemma wait_loop_panic_iff:
  "snd (wait_loop hs start cmd n evs) = Inl (GoPanic e) \<longleftrightarrow>
     (consumed evs \<noteq> [] \<and> (\<exists>w. last (consumed evs) = Tick w \<and> w4_err w = Some e))"
proof (induction evs arbitrary: n)
  case Nil
  show ?case by simp
next
  case (Cons ev evs)
  show ?case
  proof (cases "ends_wait ev")
    case True
    then show ?thesis
      by (cases ev) (auto simp add: ends_wait_def wait_select_def split: option.splits)
  next
    case False
    then obtain effs n' where step: "wait_select hs start cmd n ev = (effs, Loop n')"
      using wait_select_continues by blast
    have c: "consumed (ev # evs) = ev # consumed evs"
      using False by simp
    have r: "snd (wait_loop hs start cmd n (ev # evs)) = snd (wait_loop hs start cmd n' evs)"
      using step by (cases "wait_loop hs start cmd n' evs") simp
    show ?thesis
    proof (cases evs)
      case Nil
      have "\<not> (\<exists>w. ev = Tick w \<and> w4_err w = Some e)"
        using False by (auto simp add: ends_wait_def)
      then show ?thesis
        unfolding r c using Nil by simp
    next
      case (Cons ev' evs')
      then have "consumed evs \<noteq> []" by simp
      then show ?thesis
        unfolding r c using Cons.IH [of n'] by simp
    qed
  qed
qed

text \<open>
  Claim C6, as the code has it. Every error of \<^verbatim>\<open>Wait4\<close> makes \<^verbatim>\<open>wait\<close> panic, whatever
  the error number ("no such process" included); and \<^verbatim>\<open>wait\<close> panics with \<open>e\<close> exactly
  when the last poll it makes answers the error \<open>e\<close>.
\<close>

theorem wait_panics_on_every_error:
  "wait_select hs start cmd n (Tick \<lparr>w4_q = q, w4_status = s, w4_err = Some e\<rparr>) = ([], Panics e) \<and>
   (snd (wait hs start cmd evs) = Inl (GoPanic e) \<longleftrightarrow>
     (consumed evs \<noteq> [] \<and> (\<exists>w. last (consumed evs) = Tick w \<and> w4_err w = Some e)))"
  by (simp add: wait_def wait_loop_panic_iff wait_select_def)

text \<open>A poll that answers "no such process" aborts the watcher too.\<close>

theorem wait_ESRCH_counterexample:
  "wait False 10 \<lparr>Pid = 7, Wait_returns = True\<rparr> [Tick \<lparr>w4_q = - 1, w4_status = 0, w4_err = Some ESRCH\<rparr>] = ([], Inl (GoPanic ESRCH))"
  by (simp add: wait_def wait_select_def)

theorem wait_panics_on_every_error_witness:
  "snd (wait False 10 \<lparr>Pid = 7, Wait_returns = True\<rparr> [Kill 11, Tick \<lparr>w4_q = - 1, w4_status = 0, w4_err = Some ESRCH\<rparr>, Kill 12])
     = Inl (GoPanic ESRCH)"
  using wait_panics_on_every_error [of False 10 "\<lparr>Pid = 7, Wait_returns = True\<rparr>" 0 "-1" 0 ESRCH "[Kill 11, Tick \<lparr>w4_q = - 1, w4_status = 0, w4_err = Some ESRCH\<rparr>, Kill 12]"]
  by (simp add: ends_wait_def)

section \<open>Properties of \<^verbatim>\<open>modTime\<close> and of the registration of directories\<close>

lemma modTime_calls_mono:
  "modTime_calls n fs p = Some r \<Longrightarrow> n \<le> m \<Longrightarrow> modTime_calls m fs p = Some r"
proof (induction n arbitrary: m p)
  case 0
  then show ?case by simp
next
  case (Suc n)
  from Suc.prems obtain m' where m: "m = Suc m'" "n \<le> m'" by (cases m) auto
  show ?case
  proof (cases "os_Stat fs p = NotExist \<and> path_Dir p \<noteq> p")
    case True
    with Suc.prems have "modTime_calls n fs (path_Dir p) = Some r" by (simp add: Let_def)
    from Suc.IH [OF this m(2)] True m show ?thesis by (simp add: Let_def)
  next
    case False
    with Suc.prems m show ?thesis
      by (auto simp add: Let_def split: result.splits)
  qed
qed

lemma modTime_calls_enough: "modTime_calls (Suc (dir_measure p)) fs p = Some (modTime fs p)"
proof (induction fs p rule: modTime.induct)
  case (1 fs p)
  show ?case
  proof (cases "os_Stat fs p = NotExist \<and> path_Dir p \<noteq> p")
    case True
    with 1 have ih: "modTime_calls (Suc (dir_measure (path_Dir p))) fs (path_Dir p)
        = Some (modTime fs (path_Dir p))" by simp
    from True have "Suc (dir_measure (path_Dir p)) \<le> dir_measure p"
      using Dir_decreases [of p] by simp
    from modTime_calls_mono [OF ih this] True show ?thesis
      by (subst modTime.simps) (simp add: Let_def)
  next
    case False
    then show ?thesis
      by (subst modTime.simps) (auto simp add: Let_def split: result.splits)
  qed
qed

lemma dir_measure_le: "dir_measure p \<le> length p + 1"
  by (simp add: dir_measure_def)

lemma Dir_fixed_point:
  "\<exists>k\<le>dir_measure p. path_Dir (ancestor k p) = ancestor k p"
proof (induction "dir_measure p" arbitrary: p rule: less_induct)
  case less
  show ?case
  proof (cases "path_Dir p = p")
    case True
    then have "path_Dir (ancestor 0 p) = ancestor 0 p" by (simp add: ancestor_def)
    then show ?thesis by blast
  next
    case False
    then have d: "dir_measure (path_Dir p) < dir_measure p" by (rule Dir_decreases)
    from less [OF d] obtain k where k: "k \<le> dir_measure (path_Dir p)"
        "path_Dir (ancestor k (path_Dir p)) = ancestor k (path_Dir p)" by blast
    have "ancestor k (path_Dir p) = ancestor (Suc k) p"
      by (simp add: ancestor_def funpow_swap1)
    with k d have "Suc k \<le> dir_measure p \<and> path_Dir (ancestor (Suc k) p) = ancestor (Suc k) p"
      by simp
    then show ?thesis by blast
  qed
qed

lemma ancestor_0: "ancestor 0 p = p"
  by (simp add: ancestor_def)

lemma ancestor_Suc: "ancestor (Suc k) p = path_Dir (ancestor k p)"
  by (simp add: ancestor_def)

lemma ancestor_shift: "ancestor k (path_Dir p) = ancestor (Suc k) p"
  by (simp add: ancestor_def funpow_swap1)

lemma recurses_shift:
  assumes "os_Stat fs p = NotExist" "path_Dir p \<noteq> p" "recurses fs (path_Dir p) k"
  shows "recurses fs p (Suc k)"
  unfolding recurses_def
proof (intro allI impI)
  fix j assume j: "j < Suc k"
  show "os_Stat fs (ancestor j p) = NotExist \<and> ancestor (Suc j) p \<noteq> ancestor j p"
  proof (cases j)
    case 0
    with assms show ?thesis by (simp add: ancestor_def)
  next
    case (Suc i)
    with j have "i < k" by simp
    with assms(3) have "os_Stat fs (ancestor i (path_Dir p)) = NotExist \<and>
        ancestor (Suc i) (path_Dir p) \<noteq> ancestor i (path_Dir p)"
      by (simp add: recurses_def)
    then have "os_Stat fs (ancestor (Suc i) p) = NotExist \<and>
        ancestor (Suc (Suc i)) p \<noteq> ancestor (Suc i) p"
      by (simp add: ancestor_shift)
    with Suc show ?thesis by simp
  qed
qed

lemma modTime_stop:
  "os_Stat fs q \<noteq> NotExist \<or> path_Dir q = q \<Longrightarrow> modTime fs q = answer fs q"
  by (subst modTime.simps) (auto simp add: answer_def Let_def split: result.splits)

lemma modTime_resolution:
  "\<exists>k\<le>dir_measure p. recurses fs p k \<and>
     (os_Stat fs (ancestor k p) \<noteq> NotExist \<or> path_Dir (ancestor k p) = ancestor k p) \<and>
     modTime fs p = answer fs (ancestor k p)"
proof (induction fs p rule: modTime.induct)
  case (1 fs p)
  show ?case
  proof (cases "os_Stat fs p = NotExist \<and> path_Dir p \<noteq> p")
    case True
    with 1 obtain k where k: "k \<le> dir_measure (path_Dir p)" "recurses fs (path_Dir p) k"
        "os_Stat fs (ancestor k (path_Dir p)) \<noteq> NotExist \<or>
           path_Dir (ancestor k (path_Dir p)) = ancestor k (path_Dir p)"
        "modTime fs (path_Dir p) = answer fs (ancestor k (path_Dir p))"
      by auto
    from True have d: "dir_measure (path_Dir p) < dir_measure p"
      using Dir_decreases [of p] by simp
    from True have m: "modTime fs p = modTime fs (path_Dir p)"
      by (subst modTime.simps) (simp add: Let_def)
    from True k(2) have r: "recurses fs p (Suc k)"
      by (simp add: recurses_shift)
    from k d m r have "Suc k \<le> dir_measure p \<and> recurses fs p (Suc k) \<and>
        (os_Stat fs (ancestor (Suc k) p) \<noteq> NotExist \<or>
           path_Dir (ancestor (Suc k) p) = ancestor (Suc k) p) \<and>
        modTime fs p = answer fs (ancestor (Suc k) p)"
      by (simp only: ancestor_shift) simp
    then show ?thesis by blast
  next
    case False
    then have "os_Stat fs p \<noteq> NotExist \<or> path_Dir p = p" by blast
    then have "recurses fs p 0 \<and>
        (os_Stat fs (ancestor 0 p) \<noteq> NotExist \<or> path_Dir (ancestor 0 p) = ancestor 0 p) \<and>
        modTime fs p = answer fs (ancestor 0 p)"
      using modTime_stop [of fs p] by (simp add: recurses_def ancestor_0)
    then show ?thesis by blast
  qed
qed

lemma sendChanges_drops:
  "\<not> excluded excludeRe (Name ev) \<Longrightarrow> modTime fs (Name ev) = Inl e \<Longrightarrow>
   sendChanges_select fuel excludeRe fs (Events ev) =
     Some ([LogPrintf ''Failed to get even time: %s'' [AStr e]], None)"
  by (simp add: sendChanges_select_def)


lemma sends_append: "sends (xs @ ys) = sends xs @ sends ys"
  by (induction xs rule: sends.induct) auto


lemma sends_watch: "sends (watch fs p) = []"
  by (simp add: watch_def split: result.splits)



lemma watchDir_ents_sends:
  assumes rec: "\<And>sub effs. rec sub = Some effs \<Longrightarrow> sends effs = []"
  shows "watchDir_ents rec excludeRe fs p ents = Some effs \<Longrightarrow> sends effs = []"
proof (induction ents arbitrary: effs)
  case Nil
  then show ?case by simp
next
  case (Cons e es)
  from Cons.prems show ?case
    by (auto simp add: Let_def sends_append split: if_splits sum.splits bool.splits option.splits
        dest: rec Cons.IH)
qed

lemma watchDir_sends: "watchDir fuel excludeRe fs p = Some effs \<Longrightarrow> sends effs = []"
proof (induction fuel arbitrary: p effs)
  case 0
  then show ?case by simp
next
  case (Suc fuel)
  from Suc.prems show ?case
    by (auto simp add: sends_append sends_watch split: result.splits
        dest: watchDir_ents_sends [rotated] Suc.IH)
qed

lemma watchDir_ents_visits:
  "watchDir_ents rec excludeRe fs p ents = Some effs \<Longrightarrow> e \<in> set ents \<Longrightarrow>
   \<not> excluded excludeRe (path_Join [p, e]) \<Longrightarrow> isDir fs (path_Join [p, e]) = Inr True \<Longrightarrow>
   \<exists>r. rec (path_Join [p, e]) = Some r \<and> set r \<subseteq> set effs"
proof (induction ents arbitrary: effs)
  case Nil
  then show ?case by simp
next
  case (Cons a es)
  let ?sub = "path_Join [p, a]"
  show ?case
  proof (cases "a = e")
    case True
    with Cons.prems obtain r1 r2 where "rec ?sub = Some r1" "effs = r1 @ r2"
      by (auto simp add: Let_def split: option.splits)
    with True show ?thesis by auto
  next
    case False
    with Cons.prems have e: "e \<in> set es" by simp
    from Cons.prems(1) obtain pre r where r: "watchDir_ents rec excludeRe fs p es = Some r"
        "effs = pre @ r"
      by (auto simp add: Let_def split: if_splits sum.splits bool.splits option.splits)
    from Cons.IH [OF r(1) e Cons.prems(3) Cons.prems(4)] r(2) show ?thesis by auto
  qed
qed

lemma watchDir_adds_root:
  "watchDir fuel excludeRe fs p = Some effs \<Longrightarrow> ioutil_ReadDir fs p \<noteq> NotExist \<Longrightarrow>
   WatcherAdd p \<in> set effs"
  by (cases fuel) (auto simp add: watch_def split: result.splits)

lemma in_tree_visited:
  "in_tree excludeRe fs root q \<Longrightarrow> watchDir fuel excludeRe fs root = Some effs \<Longrightarrow>
   \<exists>n r. watchDir n excludeRe fs q = Some r \<and> set r \<subseteq> set effs"
proof (induction rule: in_tree.induct)
  case in_tree_root
  then show ?case by blast
next
  case (in_tree_sub q ents e)
  then obtain n r where r: "watchDir n excludeRe fs q = Some r" "set r \<subseteq> set effs" by blast
  from r(1) obtain m where m: "n = Suc m" by (cases n) auto
  with r(1) in_tree_sub.hyps(2) have
      "\<exists>r'. watchDir_ents (watchDir m excludeRe fs) excludeRe fs q ents = Some r' \<and>
         r = ReadDir q # r' @ watch fs q"
    by auto
  then obtain r' where
      r': "watchDir_ents (watchDir m excludeRe fs) excludeRe fs q ents = Some r'"
      and eq: "r = ReadDir q # r' @ watch fs q"
    by blast
  from eq have sub: "set r' \<subseteq> set r" by auto
  from watchDir_ents_visits [OF r' in_tree_sub.hyps(3) in_tree_sub.hyps(4) in_tree_sub.hyps(5)]
  obtain r'' where "watchDir m excludeRe fs (path_Join [q, e]) = Some r''" "set r'' \<subseteq> set r'"
    by blast
  with sub r(2) show ?case by blast
qed

lemma watchDir_registers_tree:
  assumes "watchDir fuel excludeRe fs root = Some effs" "in_tree excludeRe fs root q"
    "ioutil_ReadDir fs q \<noteq> NotExist"
  shows "WatcherAdd q \<in> set effs"
proof -
  from in_tree_visited [OF assms(2) assms(1)] obtain n r where
    "watchDir n excludeRe fs q = Some r" "set r \<subseteq> set effs" by blast
  with watchDir_adds_root [OF _ assms(3)] show ?thesis by blast
qed

lemma watchDir_ents_returns:
  "(\<And>e. e \<in> set ents \<Longrightarrow> \<not> excluded excludeRe (path_Join [p, e]) \<Longrightarrow>
      isDir fs (path_Join [p, e]) = Inr True \<Longrightarrow> \<exists>r. rec (path_Join [p, e]) = Some r) \<Longrightarrow>
   \<exists>effs. watchDir_ents rec excludeRe fs p ents = Some effs"
proof (induction ents)
  case Nil
  show ?case by simp
next
  case (Cons a es)
  from Cons.IH Cons.prems obtain r where r: "watchDir_ents rec excludeRe fs p es = Some r"
    by auto
  show ?case
  proof (cases "\<not> excluded excludeRe (path_Join [p, a]) \<and> isDir fs (path_Join [p, a]) = Inr True")
    case True
    with Cons.prems [of a] obtain r' where "rec (path_Join [p, a]) = Some r'" by auto
    with True r show ?thesis by (simp add: Let_def)
  next
    case False
    with r show ?thesis
      by (auto simp add: Let_def split: sum.splits bool.splits)
  qed
qed

lemma watchDir_returns:
  "nested_le d excludeRe fs p \<Longrightarrow> \<exists>effs. watchDir (Suc d) excludeRe fs p = Some effs"
proof (induction d arbitrary: p)
  case 0
  have "\<exists>effs. watchDir_ents (watchDir 0 excludeRe fs) excludeRe fs p ents = Some effs"
    if "ioutil_ReadDir fs p = Ok ents" for ents
    using 0 that by (intro watchDir_ents_returns) auto
  then show ?case
    by (cases "ioutil_ReadDir fs p") (auto simp del: watchDir.simps(1))
next
  case (Suc d)
  have "\<exists>effs. watchDir_ents (watchDir (Suc d) excludeRe fs) excludeRe fs p ents = Some effs"
    if rd: "ioutil_ReadDir fs p = Ok ents" for ents
  proof (rule watchDir_ents_returns)
    fix e assume e: "e \<in> set ents" "\<not> excluded excludeRe (path_Join [p, e])"
      "isDir fs (path_Join [p, e]) = Inr True"
    with Suc.prems rd have "nested_le d excludeRe fs (path_Join [p, e])" by auto
    then show "\<exists>r. watchDir (Suc d) excludeRe fs (path_Join [p, e]) = Some r"
      by (rule Suc.IH)
  qed
  then show ?case
    by (cases "ioutil_ReadDir fs p") (auto simp del: watchDir.simps(2) simp add: watchDir.simps(2) [of "Suc d"])
qed


section \<open>Resolving the time of a change\<close>

lemma Dir_gone: "path_Dir ''x/gone/y'' = ''x/gone''" "path_Dir ''x/gone'' = ''x''"
  by code_simp+

lemma modTime_example: "modTime example_fs ''x/gone/y'' = Inr 5"
  by (simp add: modTime.simps Dir_gone Let_def example_fs_def)

text \<open>
  Claim C10. \<^verbatim>\<open>modTime\<close> terminates on every path, whatever the file system: counting
  its calls, \<open>dir_measure p + 1\<close> of them (at most \<open>length p + 2\<close>) are enough for the
  result. A recursive step is taken on a missing path that differs from its parent, it
  replaces the path by the parent, and the parent is smaller in \<open>dir_measure\<close>; a missing
  path that is its own parent ends the recursion with an error, and such a fixed point of
  \<^verbatim>\<open>path.Dir\<close> is reached from \<open>p\<close> in at most \<open>dir_measure p\<close> steps.
\<close>

theorem modTime_terminates:
  "modTime_calls (Suc (dir_measure p)) fs p = Some (modTime fs p) \<and>
   dir_measure p \<le> length p + 1 \<and>
   (os_Stat fs p = NotExist \<and> path_Dir p \<noteq> p \<longrightarrow>
      modTime fs p = modTime fs (path_Dir p) \<and> dir_measure (path_Dir p) < dir_measure p) \<and>
   (os_Stat fs p = NotExist \<and> path_Dir p = p \<longrightarrow>
      modTime fs p = Inl (''Failed to find directory for '' @ p)) \<and>
   (\<exists>k\<le>dir_measure p. path_Dir (ancestor k p) = ancestor k p)"
proof -
  have "os_Stat fs p = NotExist \<and> path_Dir p \<noteq> p \<longrightarrow>
      modTime fs p = modTime fs (path_Dir p) \<and> dir_measure (path_Dir p) < dir_measure p"
    using Dir_decreases [of p] by (subst modTime.simps) (simp add: Let_def)
  moreover have "os_Stat fs p = NotExist \<and> path_Dir p = p \<longrightarrow>
      modTime fs p = Inl (''Failed to find directory for '' @ p)"
    by (subst modTime.simps) (simp add: Let_def)
  ultimately show ?thesis
    using modTime_calls_enough [of p fs] dir_measure_le [of p] Dir_fixed_point [of p] by blast
qed

lemma Dir_root: "path_Dir ''/gone/y'' = ''/gone''" "path_Dir ''/gone'' = ''/''" "path_Dir ''/'' = ''/''"
  by code_simp+

lemma example_root: "modTime example_fs ''/'' = Inl ''Failed to find directory for /''"
  by (simp add: modTime.simps Dir_root Let_def example_fs_def)

theorem modTime_terminates_witness:
  "modTime_calls (Suc (dir_measure ''x/gone/y'')) example_fs ''x/gone/y'' = Some (Inr 5) \<and>
   dir_measure ''x/gone/y'' \<le> 10 \<and>
   os_Stat example_fs ''x/gone/y'' = NotExist \<and> path_Dir ''x/gone/y'' = ''x/gone'' \<and>
   modTime example_fs ''x/gone/y'' = modTime example_fs ''x/gone'' \<and>
   dir_measure ''x/gone'' < dir_measure ''x/gone/y'' \<and>
   os_Stat example_fs ''/'' = NotExist \<and> path_Dir ''/'' = ''/'' \<and>
   modTime example_fs ''/'' = Inl ''Failed to find directory for /''"
proof -
  note t = modTime_terminates [of "''x/gone/y''" example_fs]
  note r = modTime_terminates [of "''/''" example_fs]
  have a: "os_Stat example_fs ''x/gone/y'' = NotExist" by (simp add: example_fs_def)
  have b: "path_Dir ''x/gone/y'' = ''x/gone''" by (rule Dir_gone)
  have b': "path_Dir ''x/gone/y'' \<noteq> ''x/gone/y''" by (simp add: b)
  have c: "os_Stat example_fs ''/'' = NotExist" by (simp add: example_fs_def)
  have d: "path_Dir ''/'' = ''/''" by (rule Dir_root)
  from t [THEN conjunct1]
  have 1: "modTime_calls (Suc (dir_measure ''x/gone/y'')) example_fs ''x/gone/y'' = Some (Inr 5)"
    by (simp only: modTime_example)
  from t [THEN conjunct2, THEN conjunct1]
  have 2: "dir_measure ''x/gone/y'' \<le> 10" by simp
  from t [THEN conjunct2, THEN conjunct2, THEN conjunct1, THEN mp, OF conjI [OF a b']]
  have 3: "modTime example_fs ''x/gone/y'' = modTime example_fs ''x/gone'' \<and>
      dir_measure ''x/gone'' < dir_measure ''x/gone/y''"
    by (simp only: b)
  from r [THEN conjunct2, THEN conjunct2, THEN conjunct2, THEN conjunct1, THEN mp, OF conjI [OF c d]]
  have 4: "modTime example_fs ''/'' = Inl ''Failed to find directory for /''"
    by simp
  from a b c d 1 2 3 4 show ?thesis by (intro conjI) (elim conjE, assumption)+
qed

text \<open>
  Claim C4, as the code has it. \<^verbatim>\<open>modTime\<close> returns the modification time of a path
  that exists. In general it climbs from \<open>p\<close> through \<open>k\<close> missing paths to the first
  ancestor that is not missing or is its own parent, and answers there: the modification
  time if the ancestor exists, the error of \<^verbatim>\<open>os.Stat\<close> if examining it fails otherwise,
  and the error "Failed to find directory" if it is missing and its own parent. The
  paths that are their own parent are \<open>/\<close> and \<open>.\<close>. Whatever the error, \<^verbatim>\<open>sendChanges\<close>
  logs it and goes on to the next event without sending anything.
\<close>

theorem modTime_resolves:
  "(\<forall>s. os_Stat fs p = Ok s \<longrightarrow> modTime fs p = Inr (ModTime s)) \<and>
   (\<exists>k\<le>dir_measure p. recurses fs p k \<and>
      (os_Stat fs (ancestor k p) \<noteq> NotExist \<or> path_Dir (ancestor k p) = ancestor k p) \<and>
      modTime fs p = answer fs (ancestor k p)) \<and>
   (\<forall>q. path_Dir q = q \<longleftrightarrow> q = ''/'' \<or> q = ''.'') \<and>
   (\<forall>excludeRe ev fuel e.
      \<not> excluded excludeRe (Name ev) \<longrightarrow> modTime fs (Name ev) = Inl e \<longrightarrow>
      sendChanges_select fuel excludeRe fs (Events ev) =
        Some ([LogPrintf ''Failed to get even time: %s'' [AStr e]], None))"
proof (intro conjI)
  show "\<forall>s. os_Stat fs p = Ok s \<longrightarrow> modTime fs p = Inr (ModTime s)"
    by (subst modTime.simps) simp
  show "\<exists>k\<le>dir_measure p. recurses fs p k \<and>
      (os_Stat fs (ancestor k p) \<noteq> NotExist \<or> path_Dir (ancestor k p) = ancestor k p) \<and>
      modTime fs p = answer fs (ancestor k p)"
    by (rule modTime_resolution)
  show "\<forall>q. path_Dir q = q \<longleftrightarrow> q = ''/'' \<or> q = ''.''"
    by (simp add: Dir_fixed_iff)
  show "\<forall>excludeRe ev fuel e.
      \<not> excluded excludeRe (Name ev) \<longrightarrow> modTime fs (Name ev) = Inl e \<longrightarrow>
      sendChanges_select fuel excludeRe fs (Events ev) =
        Some ([LogPrintf ''Failed to get even time: %s'' [AStr e]], None)"
    using sendChanges_drops by blast
qed

lemma modTime_example_root: "modTime example_fs ''/gone/y'' = Inl ''Failed to find directory for /''"
  by (simp add: modTime.simps Dir_root Let_def example_fs_def)

lemma example_stat_f: "os_Stat example_fs ''x/f'' = Ok \<lparr>ModTime = 7, IsDir = False\<rparr>"
  by (simp add: example_fs_def)

theorem modTime_resolves_witness:
  "os_Stat example_fs ''x/f'' = Ok \<lparr>ModTime = 7, IsDir = False\<rparr> \<and>
   modTime example_fs ''x/f'' = Inr 7 \<and>
   \<not> excluded None ''/gone/y'' \<and>
   modTime example_fs ''/gone/y'' = Inl ''Failed to find directory for /'' \<and>
   sendChanges_select 3 None example_fs (Events \<lparr>Name = ''/gone/y'', Op = 4\<rparr>) =
     Some ([LogPrintf ''Failed to get even time: %s'' [AStr ''Failed to find directory for /'']], None)"
proof -
  let ?ev = "\<lparr>Name = ''/gone/y'', Op = 4\<rparr>"
  note t = modTime_resolves [of example_fs "''x/f''"]
  have a: "\<not> excluded None (Name ?ev)"
    by (simp add: excluded_def)
  have b: "modTime example_fs (Name ?ev) = Inl ''Failed to find directory for /''"
    by (simp add: modTime_example_root)
  from t [THEN conjunct2, THEN conjunct2, THEN conjunct2, rule_format, OF a b, of 3]
  have c: "sendChanges_select 3 None example_fs (Events ?ev) =
     Some ([LogPrintf ''Failed to get even time: %s'' [AStr ''Failed to find directory for /'']], None)" .
  from t [THEN conjunct1, rule_format, OF example_stat_f]
  have d: "modTime example_fs ''x/f'' = Inr 7" by simp
  from a have a': "\<not> excluded None ''/gone/y''" by simp
  from b have b'': "modTime example_fs ''/gone/y'' = Inl ''Failed to find directory for /''" by simp
  from example_stat_f d a' b'' c show ?thesis by (intro conjI)
qed

lemma Dir_bad: "path_Dir ''x/bad'' = ''x''"
  by code_simp

text \<open>An error without reaching a path that is its own parent: \<open>x/bad\<close> cannot be
  examined, and its parent \<open>x\<close> exists.\<close>

theorem modTime_stat_error_counterexample:
  "modTime example_fs ''x/bad'' = Inl ''permission denied'' \<and>
   path_Dir ''x/bad'' = ''x'' \<and>
   os_Stat example_fs ''x'' = Ok \<lparr>ModTime = 5, IsDir = True\<rparr>"
  by (simp add: modTime.simps Dir_bad example_fs_def)


section \<open>Exclusion and the registration of created directories\<close>









text \<open>
  Claim C8. For a creation event whose path is a directory: whenever the iteration of
  \<^verbatim>\<open>sendChanges\<close> sends the change, its effects are the debug print, then the effects
  of \<^verbatim>\<open>watchDir\<close> on the path, then the send, last; \<^verbatim>\<open>watchDir\<close> sends nothing itself
  and hands to the watcher every directory of the tree below the path that can be read.
  And the change is sent: if the path is not excluded, its time resolves and the tree is
  nested at most \<open>d\<close> deep, the iteration with \<open>d + 1\<close> nested calls of \<^verbatim>\<open>watchDir\<close>
  ends with the send.
\<close>

theorem created_directory_registered:
  assumes "Op ev AND Create \<noteq> 0" "isDir fs (Name ev) = Inr True"
  shows "(\<forall>effs r t. sendChanges_select fuel excludeRe fs (Events ev) = Some (effs, r) \<longrightarrow>
            t \<in> set (sends effs) \<longrightarrow>
            (\<exists>reg. watchDir fuel excludeRe fs (Name ev) = Some reg \<and>
               effs = DebugPrint ''%s at %s'' [AEvent ev, ATime t] # reg @ [Send t] \<and>
               sends reg = [] \<and>
               (\<forall>q. in_tree excludeRe fs (Name ev) q \<longrightarrow> ioutil_ReadDir fs q \<noteq> NotExist \<longrightarrow>
                  WatcherAdd q \<in> set reg))) \<and>
         (\<forall>d t. \<not> excluded excludeRe (Name ev) \<longrightarrow> modTime fs (Name ev) = Inr t \<longrightarrow>
            nested_le d excludeRe fs (Name ev) \<longrightarrow>
            (\<exists>reg. sendChanges_select (Suc d) excludeRe fs (Events ev) =
               Some (DebugPrint ''%s at %s'' [AEvent ev, ATime t] # reg @ [Send t], None)))"
proof (intro conjI allI impI)
  fix effs r t
  assume s: "sendChanges_select fuel excludeRe fs (Events ev) = Some (effs, r)"
    and t: "t \<in> set (sends effs)"
  from s t have ne: "\<not> excluded excludeRe (Name ev)"
    by (auto simp add: sendChanges_select_def)
  from s t ne obtain t' where m: "modTime fs (Name ev) = Inr t'"
    by (cases "modTime fs (Name ev)") (auto simp add: sendChanges_select_def)
  from s ne m assms obtain reg where reg: "watchDir fuel excludeRe fs (Name ev) = Some reg"
      "effs = DebugPrint ''%s at %s'' [AEvent ev, ATime t'] # reg @ [Send t']"
    by (cases "watchDir fuel excludeRe fs (Name ev)") (auto simp add: sendChanges_select_def Let_def)
  from reg(1) have ns: "sends reg = []" by (rule watchDir_sends)
  with reg(2) t have "t = t'" by (simp add: sends_append)
  moreover have "\<forall>q. in_tree excludeRe fs (Name ev) q \<longrightarrow> ioutil_ReadDir fs q \<noteq> NotExist \<longrightarrow>
      WatcherAdd q \<in> set reg"
    using watchDir_registers_tree [OF reg(1)] by blast
  ultimately show "\<exists>reg. watchDir fuel excludeRe fs (Name ev) = Some reg \<and>
      effs = DebugPrint ''%s at %s'' [AEvent ev, ATime t] # reg @ [Send t] \<and>
      sends reg = [] \<and>
      (\<forall>q. in_tree excludeRe fs (Name ev) q \<longrightarrow> ioutil_ReadDir fs q \<noteq> NotExist \<longrightarrow>
         WatcherAdd q \<in> set reg)"
    using reg ns by blast
next
  fix d t
  assume ne: "\<not> excluded excludeRe (Name ev)" and m: "modTime fs (Name ev) = Inr t"
    and n: "nested_le d excludeRe fs (Name ev)"
  from watchDir_returns [OF n] obtain reg where
    "watchDir (Suc d) excludeRe fs (Name ev) = Some reg" by blast
  with ne m assms have "sendChanges_select (Suc d) excludeRe fs (Events ev) =
      Some (DebugPrint ''%s at %s'' [AEvent ev, ATime t] # reg @ [Send t], None)"
    by (simp add: sendChanges_select_def Let_def del: watchDir.simps)
  then show "\<exists>reg. sendChanges_select (Suc d) excludeRe fs (Events ev) =
      Some (DebugPrint ''%s at %s'' [AEvent ev, ATime t] # reg @ [Send t], None)"
    by blast
qed

lemma example_created:
  "sendChanges_select 3 None example_fs (Events \<lparr>Name = ''x/a'', Op = 1\<rparr>) =
     Some ([DebugPrint ''%s at %s'' [AEvent \<lparr>Name = ''x/a'', Op = 1\<rparr>, ATime 5],
       ReadDir ''x/a'', ReadDir ''x/a/b'',
       DebugPrint ''Watching %s'' [AStr ''x/a/b''], WatcherAdd ''x/a/b'',
       DebugPrint ''Watching %s'' [AStr ''x/a''], WatcherAdd ''x/a'', Send 5], None)"
  by code_simp

lemma example_join: "path_Join [''x/a'', ''b''] = ''x/a/b''"
  by code_simp

lemma example_in_tree: "in_tree None example_fs ''x/a'' ''x/a/b''"
proof -
  have "in_tree None example_fs ''x/a'' (path_Join [''x/a'', ''b''])"
  proof (rule in_tree_sub [OF in_tree_root])
    show "ioutil_ReadDir example_fs ''x/a'' = Ok [''b'']" by (simp add: example_fs_def)
    show "''b'' \<in> set [''b'']" by simp
    show "\<not> excluded None (path_Join [''x/a'', ''b''])" by (simp add: excluded_def)
    show "isDir example_fs (path_Join [''x/a'', ''b'']) = Inr True"
      by (simp add: example_join isDir_def example_fs_def)
  qed
  then show ?thesis by (simp add: example_join)
qed

lemma example_nested: "nested_le (Suc 0) None example_fs ''x/a''"
proof -
  have r: "ioutil_ReadDir example_fs ''x/a'' = Ok [''b'']" by (simp add: example_fs_def)
  have r': "ioutil_ReadDir example_fs ''x/a/b'' = Ok []" by (simp add: example_fs_def)
  have "nested_le 0 None example_fs ''x/a/b''" by (simp add: r')
  then show ?thesis by (simp add: r example_join)
qed

lemma modTime_example_a: "modTime example_fs ''x/a'' = Inr 5"
  by (simp add: modTime.simps example_fs_def)

theorem created_directory_registered_witness:
  "Op \<lparr>Name = ''x/a'', Op = 1\<rparr> AND Create \<noteq> 0 \<and>
   isDir example_fs ''x/a'' = Inr True \<and>
   in_tree None example_fs ''x/a'' ''x/a/b'' \<and>
   ioutil_ReadDir example_fs ''x/a/b'' \<noteq> NotExist \<and>
   (\<exists>reg. sendChanges_select 3 None example_fs (Events \<lparr>Name = ''x/a'', Op = 1\<rparr>) =
      Some (DebugPrint ''%s at %s'' [AEvent \<lparr>Name = ''x/a'', Op = 1\<rparr>, ATime 5] # reg @ [Send 5], None) \<and>
      WatcherAdd ''x/a/b'' \<in> set reg) \<and>
   \<not> excluded None ''x/a'' \<and> modTime example_fs ''x/a'' = Inr 5 \<and>
   nested_le (Suc 0) None example_fs ''x/a'' \<and>
   (\<exists>reg. sendChanges_select (Suc (Suc 0)) None example_fs (Events \<lparr>Name = ''x/a'', Op = 1\<rparr>) =
      Some (DebugPrint ''%s at %s'' [AEvent \<lparr>Name = ''x/a'', Op = 1\<rparr>, ATime 5] # reg @ [Send 5], None))"
proof -
  let ?ev = "\<lparr>Name = ''x/a'', Op = 1\<rparr>"
  have h1: "Op ?ev AND Create \<noteq> 0" by (simp add: Create_def)
  have h2: "isDir example_fs (Name ?ev) = Inr True" by (simp add: isDir_def example_fs_def)
  have h3: "ioutil_ReadDir example_fs ''x/a/b'' \<noteq> NotExist" by (simp add: example_fs_def)
  have h4: "5 \<in> set (sends [DebugPrint ''%s at %s'' [AEvent ?ev, ATime 5],
       ReadDir ''x/a'', ReadDir ''x/a/b'',
       DebugPrint ''Watching %s'' [AStr ''x/a/b''], WatcherAdd ''x/a/b'',
       DebugPrint ''Watching %s'' [AStr ''x/a''], WatcherAdd ''x/a'', Send 5])" by simp
  have h5: "\<not> excluded None (Name ?ev)" by (simp add: excluded_def)
  have h6: "modTime example_fs (Name ?ev) = Inr 5" by (simp add: modTime_example_a)
  have h7: "nested_le (Suc 0) None example_fs (Name ?ev)"
    using example_nested by (simp del: nested_le.simps)
  note inst = created_directory_registered [OF h1 h2]
  from inst [of 3 None] example_created h4
  obtain reg where "watchDir 3 None example_fs (Name ?ev) = Some reg"
    "[DebugPrint ''%s at %s'' [AEvent ?ev, ATime 5],
       ReadDir ''x/a'', ReadDir ''x/a/b'',
       DebugPrint ''Watching %s'' [AStr ''x/a/b''], WatcherAdd ''x/a/b'',
       DebugPrint ''Watching %s'' [AStr ''x/a''], WatcherAdd ''x/a'', Send 5]
      = DebugPrint ''%s at %s'' [AEvent ?ev, ATime 5] # reg @ [Send 5]"
    "\<forall>q. in_tree None example_fs (Name ?ev) q \<longrightarrow> ioutil_ReadDir example_fs q \<noteq> NotExist \<longrightarrow>
        WatcherAdd q \<in> set reg"
    by blast
  with example_in_tree h3 example_created have
    "sendChanges_select 3 None example_fs (Events ?ev) =
      Some (DebugPrint ''%s at %s'' [AEvent ?ev, ATime 5] # reg @ [Send 5], None) \<and>
      WatcherAdd ''x/a/b'' \<in> set reg"
    by simp
  then have a: "\<exists>reg. sendChanges_select 3 None example_fs (Events ?ev) =
      Some (DebugPrint ''%s at %s'' [AEvent ?ev, ATime 5] # reg @ [Send 5], None) \<and>
      WatcherAdd ''x/a/b'' \<in> set reg" by (rule exI)
  from inst [of 3 None]
  have i2: "\<forall>d t. \<not> excluded None (Name ?ev) \<longrightarrow> modTime example_fs (Name ?ev) = Inr t \<longrightarrow>
      nested_le d None example_fs (Name ?ev) \<longrightarrow>
      (\<exists>reg. sendChanges_select (Suc d) None example_fs (Events ?ev) =
         Some (DebugPrint ''%s at %s'' [AEvent ?ev, ATime t] # reg @ [Send t], None))"
    by (elim conjE)
  from i2 [rule_format, OF h5 h6 h7]
  have b: "\<exists>reg. sendChanges_select (Suc (Suc 0)) None example_fs (Events ?ev) =
      Some (DebugPrint ''%s at %s'' [AEvent ?ev, ATime 5] # reg @ [Send 5], None)" .
  from h1 h2 h3 h5 h6 h7 example_in_tree a b show ?thesis by simp
qed

section \<open>Runs and the loop of \<^verbatim>\<open>main\<close>\<close>

lemma wait_loop_return_iff:
  "snd (wait_loop hs start cmd n evs) = Inr s \<longleftrightarrow>
     (consumed evs \<noteq> [] \<and>
      (\<exists>w. last (consumed evs) = Tick w \<and> w4_err w = None \<and> 0 < w4_q w \<and> w4_status w = s) \<and>
      Wait_returns cmd)"
proof (induction evs arbitrary: n)
  case Nil
  show ?case by simp
next
  case (Cons ev evs)
  show ?case
  proof (cases "ends_wait ev")
    case True
    then show ?thesis
      by (cases ev) (auto simp add: ends_wait_def wait_select_def split: option.splits)
  next
    case False
    then obtain effs n' where step: "wait_select hs start cmd n ev = (effs, Loop n')"
      using wait_select_continues by blast
    have c: "consumed (ev # evs) = ev # consumed evs"
      using False by simp
    have r: "snd (wait_loop hs start cmd n (ev # evs)) = snd (wait_loop hs start cmd n' evs)"
      using step by (cases "wait_loop hs start cmd n' evs") simp
    show ?thesis
    proof (cases evs)
      case Nil
      have "\<not> (\<exists>w. ev = Tick w \<and> w4_err w = None \<and> 0 < w4_q w)"
        using False by (auto simp add: ends_wait_def)
      then show ?thesis
        unfolding r c using Nil by auto
    next
      case (Cons ev' evs')
      then have "consumed evs \<noteq> []" by simp
      then show ?thesis
        unfolding r c using Cons.IH [of n'] by simp
    qed
  qed
qed

lemma run_returns:
  "snd (snd (run env)) = Inr t \<Longrightarrow>
   t = now_return env \<and>
   (\<exists>cmd s. cmd_Start env = Inr cmd \<and>
      snd (wait (hasSetPGID env) (now_start env) cmd (selects env)) = Inr s)"
  by (auto simp add: run_def Let_def split: sum.splits prod.splits)

lemma wait_loop_outcome:
  "(\<exists>s. snd (wait_loop hs start cmd n evs) = Inr s) \<or>
   (\<exists>e. snd (wait_loop hs start cmd n evs) = Inl (GoPanic e)) \<or>
   snd (wait_loop hs start cmd n evs) = Inl Blocked"
proof (induction evs arbitrary: n)
  case Nil
  show ?case by simp
next
  case (Cons ev evs)
  obtain effs c where step: "wait_select hs start cmd n ev = (effs, c)"
    by (cases "wait_select hs start cmd n ev")
  show ?case
  proof (cases c)
    case (Loop n')
    have "snd (wait_loop hs start cmd n (ev # evs)) = snd (wait_loop hs start cmd n' evs)"
      using step Loop by (cases "wait_loop hs start cmd n' evs") simp
    with Cons.IH [of n'] show ?thesis by simp
  next
    case (Returns s)
    with step show ?thesis by simp
  next
    case (Panics e)
    with step show ?thesis by simp
  next
    case Hangs
    with step show ?thesis by simp
  qed
qed

lemma wait_pipe_held:
  assumes "consumed evs \<noteq> []" "last (consumed evs) = Tick w" "w4_err w = None"
    "\<not> Wait_returns cmd"
  shows "snd (wait hs start cmd evs) = Inl Blocked"
proof -
  have "\<not> (\<exists>s. snd (wait_loop hs start cmd 0 evs) = Inr s)"
    using assms(4) by (simp add: wait_loop_return_iff)
  moreover have "\<not> (\<exists>e. snd (wait_loop hs start cmd 0 evs) = Inl (GoPanic e))"
    using assms(2) assms(3) by (simp add: wait_loop_panic_iff)
  ultimately show ?thesis
    using wait_loop_outcome [of hs start cmd 0 evs] by (simp add: wait_def)
qed

text \<open>
  Claim C7, as the code has it. When the command starts and \<^verbatim>\<open>wait\<close> returns the status
  \<open>s\<close>, the display gets the line of the command and its arguments, the output of the
  command, a line "exit status \<open>s\<close>" only if \<open>s\<close> is not 0, and the line of the time; and
  \<^verbatim>\<open>wait\<close> returns only when its last poll has reaped the process and \<^verbatim>\<open>cmd.Wait()\<close> has
  returned. When \<^verbatim>\<open>wait\<close> does not return, the display gets the line of the command and
  the output of the command and nothing more; that is so when the process is reaped
  while its output pipe is still held open. When the command does not start, the display
  gets the line of the command and a line "fatal: " with the error, and the program
  exits with status 1.
\<close>

theorem run_output:
  "(\<forall>cmd s. cmd_Start env = Inr cmd \<longrightarrow>
      snd (wait (hasSetPGID env) (now_start env) cmd (selects env)) = Inr s \<longrightarrow>
      fst (run env) =
        strings_Join (Args env) '' '' @ ''\<newline>'' @ cmd_output env @
        (if s \<noteq> 0 then ''exit status '' @ Itoa s @ ''\<newline>'' else []) @
        Time_String env (now_done env) @ ''\<newline>'' \<and>
      snd (snd (run env)) = Inr (now_return env) \<and>
      Wait_returns cmd \<and>
      (\<exists>w. last (consumed (selects env)) = Tick w \<and> w4_err w = None \<and> 0 < w4_q w \<and>
         w4_status w = s)) \<and>
   (\<forall>cmd a. cmd_Start env = Inr cmd \<longrightarrow>
      snd (wait (hasSetPGID env) (now_start env) cmd (selects env)) = Inl a \<longrightarrow>
      fst (run env) = strings_Join (Args env) '' '' @ ''\<newline>'' @ cmd_output env \<and>
      snd (snd (run env)) = Inl a) \<and>
   (\<forall>cmd w. cmd_Start env = Inr cmd \<longrightarrow> consumed (selects env) \<noteq> [] \<longrightarrow>
      last (consumed (selects env)) = Tick w \<longrightarrow> w4_err w = None \<longrightarrow> \<not> Wait_returns cmd \<longrightarrow>
      fst (run env) = strings_Join (Args env) '' '' @ ''\<newline>'' @ cmd_output env \<and>
      snd (snd (run env)) = Inl Blocked) \<and>
   (\<forall>err. cmd_Start env = Inl err \<longrightarrow>
      run env =
        (strings_Join (Args env) '' '' @ ''\<newline>'' @ ''fatal: '' @ err @ ''\<newline>'', [],
         Inl (OsExit 1)))"
proof (intro conjI allI impI)
  fix cmd s
  assume c: "cmd_Start env = Inr cmd"
    and w: "snd (wait (hasSetPGID env) (now_start env) cmd (selects env)) = Inr s"
  from c w show "fst (run env) =
        strings_Join (Args env) '' '' @ ''\<newline>'' @ cmd_output env @
        (if s \<noteq> 0 then ''exit status '' @ Itoa s @ ''\<newline>'' else []) @
        Time_String env (now_done env) @ ''\<newline>''"
    by (cases "wait (hasSetPGID env) (now_start env) cmd (selects env)")
       (simp add: run_def Let_def)
  from c w show "snd (snd (run env)) = Inr (now_return env)"
    by (cases "wait (hasSetPGID env) (now_start env) cmd (selects env)")
       (simp add: run_def Let_def)
  from w have r: "snd (wait_loop (hasSetPGID env) (now_start env) cmd 0 (selects env)) = Inr s"
    by (simp add: wait_def)
  from r show "Wait_returns cmd"
    by (simp add: wait_loop_return_iff)
  from r show "\<exists>w. last (consumed (selects env)) = Tick w \<and> w4_err w = None \<and> 0 < w4_q w \<and>
      w4_status w = s"
    by (simp add: wait_loop_return_iff)
next
  fix cmd a
  assume c: "cmd_Start env = Inr cmd"
    and w: "snd (wait (hasSetPGID env) (now_start env) cmd (selects env)) = Inl a"
  from c w show "fst (run env) = strings_Join (Args env) '' '' @ ''\<newline>'' @ cmd_output env"
    by (cases "wait (hasSetPGID env) (now_start env) cmd (selects env)")
       (simp add: run_def Let_def)
  from c w show "snd (snd (run env)) = Inl a"
    by (cases "wait (hasSetPGID env) (now_start env) cmd (selects env)")
       (simp add: run_def Let_def)
next
  fix cmd w
  assume c: "cmd_Start env = Inr cmd" and h: "consumed (selects env) \<noteq> []"
    "last (consumed (selects env)) = Tick w" "w4_err w = None" "\<not> Wait_returns cmd"
  from h have b: "snd (wait (hasSetPGID env) (now_start env) cmd (selects env)) = Inl Blocked"
    by (rule wait_pipe_held)
  from c b show "fst (run env) = strings_Join (Args env) '' '' @ ''\<newline>'' @ cmd_output env"
    by (cases "wait (hasSetPGID env) (now_start env) cmd (selects env)")
       (simp add: run_def Let_def)
  from c b show "snd (snd (run env)) = Inl Blocked"
    by (cases "wait (hasSetPGID env) (now_start env) cmd (selects env)")
       (simp add: run_def Let_def)
next
  fix err
  assume "cmd_Start env = Inl err"
  then show "run env =
        (strings_Join (Args env) '' '' @ ''\<newline>'' @ ''fatal: '' @ err @ ''\<newline>'', [],
         Inl (OsExit 1))"
    by (simp add: run_def Let_def)
qed

lemma example_wait:
  "wait True 2001 \<lparr>Pid = 7, Wait_returns = True\<rparr> [Tick \<lparr>w4_q = 0, w4_status = 0, w4_err = None\<rparr>,
      Tick \<lparr>w4_q = 7, w4_status = 0, w4_err = None\<rparr>] = ([], Inr 0)"
  by (simp add: wait_def wait_select_def)

lemma example_run_nostart:
  "run example_env_nostart =
     (''./build -v\<newline>fatal: fork/exec ./build: permission denied\<newline>'', [], Inl (OsExit 1))"
  by (simp add: run_def example_env_nostart_def)

lemma example_run_pipe_held:
  "run example_env_pipe_held = (''echo hi\<newline>hi\<newline>'', [], Inl Blocked)"
  by code_simp

theorem run_output_witness:
  "cmd_Start example_env = Inr \<lparr>Pid = 7, Wait_returns = True\<rparr> \<and>
   snd (wait (hasSetPGID example_env) (now_start example_env) \<lparr>Pid = 7, Wait_returns = True\<rparr>
          (selects example_env)) = Inr 0 \<and>
   fst (run example_env) = ''echo hi\<newline>hi\<newline>at 2950\<newline>'' \<and>
   cmd_Start example_env_pipe_held = Inr \<lparr>Pid = 7, Wait_returns = False\<rparr> \<and>
   \<not> Wait_returns \<lparr>Pid = 7, Wait_returns = False\<rparr> \<and>
   fst (run example_env_pipe_held) = ''echo hi\<newline>hi\<newline>'' \<and>
   snd (snd (run example_env_pipe_held)) = Inl Blocked \<and>
   cmd_Start example_env_nostart = Inl ''fork/exec ./build: permission denied'' \<and>
   snd (snd (run example_env_nostart)) = Inl (OsExit 1)"
proof -
  let ?cmd = "\<lparr>Pid = 7, Wait_returns = True\<rparr>"
  let ?held = "\<lparr>Pid = 7, Wait_returns = False\<rparr>"
  let ?w = "\<lparr>w4_q = 7, w4_status = 0, w4_err = None\<rparr>"
  note t = run_output [of example_env]
  note h = run_output [of example_env_pipe_held]
  note n = run_output [of example_env_nostart]
  have a: "cmd_Start example_env = Inr ?cmd" by (simp add: example_env_def)
  have b: "snd (wait (hasSetPGID example_env) (now_start example_env) ?cmd (selects example_env)) = Inr 0"
    by (simp add: example_env_def example_wait)
  from t [THEN conjunct1, rule_format, OF a b, THEN conjunct1]
  have "fst (run example_env) =
        strings_Join (Args example_env) '' '' @ ''\<newline>'' @ cmd_output example_env @
        (if (0::int) \<noteq> 0 then ''exit status '' @ Itoa 0 @ ''\<newline>'' else []) @
        Time_String example_env (now_done example_env) @ ''\<newline>''" .
  moreover have "Itoa 2950 = ''2950''" by code_simp
  ultimately have c: "fst (run example_env) = ''echo hi\<newline>hi\<newline>at 2950\<newline>''"
    by (simp add: example_env_def)
  have d: "cmd_Start example_env_pipe_held = Inr ?held"
    by (simp add: example_env_pipe_held_def)
  have s: "selects example_env_pipe_held =
      [Tick \<lparr>w4_q = 0, w4_status = 0, w4_err = None\<rparr>, Tick ?w]"
    by (simp add: example_env_pipe_held_def example_env_def)
  have e1: "consumed (selects example_env_pipe_held) \<noteq> []"
    by (simp add: s ends_wait_def)
  have e2: "last (consumed (selects example_env_pipe_held)) = Tick ?w"
    by (simp add: s ends_wait_def)
  have e3: "w4_err ?w = None" by simp
  have e4: "\<not> Wait_returns ?held" by simp
  note k = h [THEN conjunct2, THEN conjunct2, THEN conjunct1, rule_format, OF d e1 e2 e3 e4]
  from k [THEN conjunct1]
  have f: "fst (run example_env_pipe_held) =
        strings_Join (Args example_env_pipe_held) '' '' @ ''\<newline>'' @
        cmd_output example_env_pipe_held" .
  from k [THEN conjunct2]
  have g: "snd (snd (run example_env_pipe_held)) = Inl Blocked" .
  from f have f': "fst (run example_env_pipe_held) = ''echo hi\<newline>hi\<newline>''"
    by (simp add: example_env_pipe_held_def example_env_def)
  have i: "cmd_Start example_env_nostart = Inl ''fork/exec ./build: permission denied''"
    by (simp add: example_env_nostart_def)
  from n [THEN conjunct2, THEN conjunct2, THEN conjunct2, rule_format, OF i]
  have j: "snd (snd (run example_env_nostart)) = Inl (OsExit 1)" by simp
  from a b c d e4 f' g i j show ?thesis by (intro conjI)
qed

text \<open>A run whose command cannot be started, and a run whose command is reaped while its
  output pipe is held open: no line of the time in either.\<close>

theorem run_spawn_failure_counterexample:
  "run example_env_nostart =
     (''./build -v\<newline>fatal: fork/exec ./build: permission denied\<newline>'', [], Inl (OsExit 1)) \<and>
   run example_env_pipe_held = (''echo hi\<newline>hi\<newline>'', [], Inl Blocked)"
  by (simp add: example_run_nostart example_run_pipe_held)

text \<open>
  Claim C1, as the code has it. When the timer fires and \<open>lastRun\<close> is before
  \<open>lastChange\<close>, the loop calls \<^verbatim>\<open>run\<close> and takes its next state only when \<^verbatim>\<open>run\<close> has
  returned: \<open>lastRun\<close> is then the clock read at the end of \<^verbatim>\<open>run\<close>, the last poll of
  \<^verbatim>\<open>wait\<close> has reaped the process and \<^verbatim>\<open>cmd.Wait()\<close> has returned. If \<^verbatim>\<open>run\<close> does not
  return, neither does the iteration.
\<close>

theorem timer_runs_to_completion:
  assumes "Before (lastRun st) (lastChange st)"
  shows "(\<forall>t. snd (snd (run env)) = Inr t \<longrightarrow>
            main_select now env st TimerC =
              (fst (run env), fst (snd (run env)),
               Inr (st\<lparr>timer_C := False, lastRun := now_return env\<rparr>)) \<and>
            (\<exists>cmd s w. cmd_Start env = Inr cmd \<and>
               snd (wait (hasSetPGID env) (now_start env) cmd (selects env)) = Inr s \<and>
               last (consumed (selects env)) = Tick w \<and> 0 < w4_q w \<and> Wait_returns cmd)) \<and>
         (\<forall>a. snd (snd (run env)) = Inl a \<longrightarrow>
            snd (snd (main_select now env st TimerC)) = Inl a)"
proof (rule conjI)
  show "\<forall>t. snd (snd (run env)) = Inr t \<longrightarrow>
      main_select now env st TimerC =
        (fst (run env), fst (snd (run env)),
         Inr (st\<lparr>timer_C := False, lastRun := now_return env\<rparr>)) \<and>
      (\<exists>cmd s w. cmd_Start env = Inr cmd \<and>
         snd (wait (hasSetPGID env) (now_start env) cmd (selects env)) = Inr s \<and>
         last (consumed (selects env)) = Tick w \<and> 0 < w4_q w \<and> Wait_returns cmd)"
  proof (intro allI impI)
    fix t assume t: "snd (snd (run env)) = Inr t"
    from run_returns [OF t] obtain cmd s where r: "t = now_return env" "cmd_Start env = Inr cmd"
        "snd (wait (hasSetPGID env) (now_start env) cmd (selects env)) = Inr s"
      by blast
    from r(3) have "snd (wait_loop (hasSetPGID env) (now_start env) cmd 0 (selects env)) = Inr s"
      by (simp add: wait_def)
    then obtain w where w: "last (consumed (selects env)) = Tick w" "0 < w4_q w"
        "Wait_returns cmd"
      using wait_loop_return_iff [of "hasSetPGID env" "now_start env" cmd 0 "selects env" s]
      by blast
    from t r(1) assms have "main_select now env st TimerC =
        (fst (run env), fst (snd (run env)),
         Inr (st\<lparr>timer_C := False, lastRun := now_return env\<rparr>))"
      by (cases "run env") (simp add: main_select_def Let_def)
    with r w show "main_select now env st TimerC =
        (fst (run env), fst (snd (run env)),
         Inr (st\<lparr>timer_C := False, lastRun := now_return env\<rparr>)) \<and>
        (\<exists>cmd s w. cmd_Start env = Inr cmd \<and>
           snd (wait (hasSetPGID env) (now_start env) cmd (selects env)) = Inr s \<and>
           last (consumed (selects env)) = Tick w \<and> 0 < w4_q w \<and> Wait_returns cmd)"
      by blast
  qed
next
  show "\<forall>a. snd (snd (run env)) = Inl a \<longrightarrow>
      snd (snd (main_select now env st TimerC)) = Inl a"
  proof (intro allI impI)
    fix a assume "snd (snd (run env)) = Inl a"
    with assms show "snd (snd (main_select now env st TimerC)) = Inl a"
      by (cases "run env") (simp add: main_select_def Let_def)
  qed
qed

lemma example_run: "run example_env = (''echo hi\<newline>hi\<newline>at 2950\<newline>'', [], Inr 2951)"
  by code_simp

lemma example_run_running: "run example_env_running = (''echo hi\<newline>hi\<newline>'', [], Inl Blocked)"
  by code_simp

theorem timer_runs_to_completion_witness:
  "Before (lastRun \<lparr>lastRun = 0, lastChange = 100, timer = 0, pending = Map.empty, timer_C = True\<rparr>)
          (lastChange \<lparr>lastRun = 0, lastChange = 100, timer = 0, pending = Map.empty, timer_C = True\<rparr>) \<and>
   snd (snd (run example_env)) = Inr 2951 \<and>
   main_select 2000 example_env
       \<lparr>lastRun = 0, lastChange = 100, timer = 0, pending = Map.empty, timer_C = True\<rparr> TimerC =
     (''echo hi\<newline>hi\<newline>at 2950\<newline>'', [],
      Inr \<lparr>lastRun = 2951, lastChange = 100, timer = 0, pending = Map.empty, timer_C = False\<rparr>) \<and>
   snd (snd (run example_env_running)) = Inl Blocked \<and>
   snd (snd (main_select 2000 example_env_running
               \<lparr>lastRun = 0, lastChange = 100, timer = 0, pending = Map.empty, timer_C = True\<rparr>
               TimerC)) = Inl Blocked"
proof -
  let ?st = "\<lparr>lastRun = 0, lastChange = 100, timer = 0, pending = Map.empty, timer_C = True\<rparr>"
  have a: "Before (lastRun ?st) (lastChange ?st)" by (simp add: Before_def)
  have b: "snd (snd (run example_env)) = Inr 2951" by (simp add: example_run)
  note t = timer_runs_to_completion [OF a, of example_env 2000]
  note r = timer_runs_to_completion [OF a, of example_env_running 2000]
  from t [THEN conjunct1, rule_format, OF b, THEN conjunct1]
  have "main_select 2000 example_env ?st TimerC =
      (fst (run example_env), fst (snd (run example_env)),
       Inr (?st\<lparr>timer_C := False, lastRun := now_return example_env\<rparr>))" .
  moreover have "now_return example_env = 2951" by (simp add: example_env_def)
  ultimately have c: "main_select 2000 example_env ?st TimerC =
      (''echo hi\<newline>hi\<newline>at 2950\<newline>'', [],
       Inr \<lparr>lastRun = 2951, lastChange = 100, timer = 0, pending = Map.empty, timer_C = False\<rparr>)"
    by (simp add: example_run)
  have d: "snd (snd (run example_env_running)) = Inl Blocked" by (simp add: example_run_running)
  from r [THEN conjunct2, rule_format, OF d]
  have e: "snd (snd (main_select 2000 example_env_running ?st TimerC)) = Inl Blocked" .
  from a b c d e show ?thesis by (intro conjI)
qed

text \<open>The run starts at 2001 and \<open>lastRun\<close> becomes 2951, the time after the command was
  reaped; while the command is running the iteration has not ended.\<close>

theorem timer_waits_counterexample:
  "now_start example_env = 2001 \<and>
   main_select 2000 example_env
       \<lparr>lastRun = 0, lastChange = 100, timer = 0, pending = Map.empty, timer_C = True\<rparr> TimerC =
     (''echo hi\<newline>hi\<newline>at 2950\<newline>'', [],
      Inr \<lparr>lastRun = 2951, lastChange = 100, timer = 0, pending = Map.empty, timer_C = False\<rparr>) \<and>
   main_select 2000 example_env_running
       \<lparr>lastRun = 0, lastChange = 100, timer = 0, pending = Map.empty, timer_C = True\<rparr> TimerC =
     (''echo hi\<newline>hi\<newline>'', [], Inl Blocked)"
proof -
  have "now_start example_env = 2001" by (simp add: example_env_def)
  then show ?thesis
    by (simp add: main_select_def Before_def example_run example_run_running)
qed

lemma expire_fields:
  "timer (expire now st) = timer st" "lastChange (expire now st) = lastChange st"
  "lastRun (expire now st) = lastRun st"
  by (simp_all add: expire_def)

lemma expire_dom: "dom (pending (expire now st)) \<subseteq> dom (pending st)"
  by (auto simp add: expire_def dom_def split: option.splits if_splits)

lemma main_select_step:
  assumes "main_select now env st ev = (out, effs, Inr st')"
  shows "timer st' = timer st \<and>
         dom (pending st') \<subseteq> insert (timer st) (dom (pending st)) \<and>
         lastChange st' = (case ev of Changes t \<Rightarrow> t | Rerun \<Rightarrow> lastChange st | TimerC \<Rightarrow> lastChange st) \<and>
         (\<forall>t. ev = Changes t \<longrightarrow> pending st' (timer st') = Some (now + rebuildDelay))"
proof (cases ev)
  case (Changes t)
  with assms show ?thesis
    by (auto simp add: main_select_def Timer_Reset_def)
next
  case Rerun
  with assms show ?thesis
    by (cases "run env") (auto simp add: main_select_def split: sum.splits)
next
  case TimerC
  with assms show ?thesis
    by (cases "run env") (auto simp add: main_select_def Let_def split: sum.splits if_splits)
qed

lemma main_iter_step:
  assumes "main_iter now env st ev = Some (out, effs, Inr st')"
  shows "timer st' = timer st \<and>
         dom (pending st') \<subseteq> insert (timer st) (dom (pending st)) \<and>
         lastChange st' = (case ev of Changes t \<Rightarrow> t | Rerun \<Rightarrow> lastChange st | TimerC \<Rightarrow> lastChange st) \<and>
         (\<forall>t. ev = Changes t \<longrightarrow> pending st' (timer st') = Some (now + rebuildDelay))"
proof -
  from assms have "main_select now env (expire now st) ev = (out, effs, Inr st')"
    by (simp add: main_iter_def Let_def split: if_splits)
  note s = main_select_step [OF this]
  from s have 1: "timer st' = timer st" by (simp add: expire_fields)
  from s have "dom (pending st') \<subseteq> insert (timer st) (dom (pending (expire now st)))"
    by (simp add: expire_fields)
  with expire_dom [of now st]
  have 2: "dom (pending st') \<subseteq> insert (timer st) (dom (pending st))" by blast
  from s have 3: "lastChange st' =
      (case ev of Changes t \<Rightarrow> t | Rerun \<Rightarrow> lastChange st | TimerC \<Rightarrow> lastChange st)"
    by (cases ev) (simp_all add: expire_fields)
  from s have 4: "\<forall>t. ev = Changes t \<longrightarrow> pending st' (timer st') = Some (now + rebuildDelay)"
    by blast
  from 1 2 3 4 show ?thesis by (intro conjI)
qed

lemma last_change_Cons:
  "last_change t ((now, env, ev) # rest) =
     last_change (case ev of Changes u \<Rightarrow> u | Rerun \<Rightarrow> t | TimerC \<Rightarrow> t) rest"
  by (cases ev) simp_all

lemma main_loop_Cons:
  assumes "main_loop st ((now, env, ev) # rest) = Some (out, effs, Inr st')"
  shows "\<exists>o1 e1 st1 o2 e2. main_iter now env st ev = Some (o1, e1, Inr st1) \<and>
           main_loop st1 rest = Some (o2, e2, Inr st')"
  using assms by (auto split: option.splits sum.splits prod.splits)

lemma main_loop_inv:
  "main_loop st ins = Some (out, effs, Inr st') \<Longrightarrow>
   timer st' = timer st \<and>
   (dom (pending st) \<subseteq> {timer st} \<longrightarrow> dom (pending st') \<subseteq> {timer st}) \<and>
   lastChange st' = last_change (lastChange st) ins"
proof (induction ins arbitrary: st out effs)
  case Nil
  then show ?case by simp
next
  case (Cons x rest)
  obtain now env ev where x: "x = (now, env, ev)" by (cases x)
  from main_loop_Cons [OF Cons.prems [unfolded x]] obtain o1 e1 st1 o2 e2 where
    i: "main_iter now env st ev = Some (o1, e1, Inr st1)"
    and l: "main_loop st1 rest = Some (o2, e2, Inr st')" by blast
  note s = main_iter_step [OF i]
  note ih = Cons.IH [OF l]
  from s ih have "timer st' = timer st" by simp
  moreover from s ih have "dom (pending st) \<subseteq> {timer st} \<longrightarrow> dom (pending st') \<subseteq> {timer st}"
    by auto
  moreover from s ih have "lastChange st' = last_change (lastChange st) (x # rest)"
    by (simp add: x last_change_Cons)
  ultimately show ?case by simp
qed

lemma main_loop_split:
  "main_loop st (xs @ ys) = Some (out, effs, Inr st') \<Longrightarrow>
   \<exists>o1 e1 st1 o2 e2. main_loop st xs = Some (o1, e1, Inr st1) \<and>
      main_loop st1 ys = Some (o2, e2, Inr st')"
proof (induction xs arbitrary: st out effs)
  case Nil
  then show ?case by simp
next
  case (Cons x xs)
  obtain now env ev where x: "x = (now, env, ev)" by (cases x)
  from Cons.prems have "main_loop st ((now, env, ev) # (xs @ ys)) = Some (out, effs, Inr st')"
    by (simp add: x)
  from main_loop_Cons [OF this] obtain o1 e1 st1 o2 e2 where
    i: "main_iter now env st ev = Some (o1, e1, Inr st1)"
    and l: "main_loop st1 (xs @ ys) = Some (o2, e2, Inr st')" by blast
  from Cons.IH [OF l] obtain o3 e3 st2 o4 e4 where
    a: "main_loop st1 xs = Some (o3, e3, Inr st2)" and b: "main_loop st2 ys = Some (o4, e4, Inr st')"
    by blast
  from i a have "main_loop st (x # xs) = Some (o1 @ o3, e1 @ e3, Inr st2)"
    by (simp add: x)
  with b show ?case by blast
qed

lemma main_init_fields:
  "timer (main_init t0 t1) = 0" "lastChange (main_init t0 t1) = t1"
  "dom (pending (main_init t0 t1)) = {0}"
  by (simp_all add: main_init_def)

text \<open>
  Claim C2, as the code has it. In every run of the loop from its initial state:
  \<open>lastChange\<close> is the time of the last change received, whatever the earlier changes
  were (no maximum is taken); a change received at the instant \<open>now\<close> leaves the timer of
  \<^verbatim>\<open>main\<close> due \<open>200ms\<close> from \<open>now\<close>; and at every point of the run the timers pending in
  the runtime are at most one, the timer of \<^verbatim>\<open>main\<close>.
\<close>

theorem change_overwrites:
  assumes "main_loop (main_init t0 t1) ins = Some (out, effs, Inr st)"
  shows "lastChange st = last_change t1 ins \<and>
         (\<forall>pre now env t. ins = pre @ [(now, env, Changes t)] \<longrightarrow>
            lastChange st = t \<and> pending st (timer st) = Some (now + rebuildDelay)) \<and>
         rebuildDelay = 200 * 1000000 \<and>
         (\<forall>k. \<exists>out' effs' st'.
            main_loop (main_init t0 t1) (take k ins) = Some (out', effs', Inr st') \<and>
            timer st' = 0 \<and> dom (pending st') \<subseteq> {0} \<and> card (dom (pending st')) \<le> 1 \<and>
            lastChange st' = last_change t1 (take k ins))"
proof -
  from main_loop_inv [OF assms] have c1: "lastChange st = last_change t1 ins"
    by (simp add: main_init_fields)
  have c2: "\<forall>pre now env t. ins = pre @ [(now, env, Changes t)] \<longrightarrow>
      lastChange st = t \<and> pending st (timer st) = Some (now + rebuildDelay)"
  proof (intro allI impI)
    fix pre now env t
    assume "ins = pre @ [(now, env, Changes t)]"
    with assms have "main_loop (main_init t0 t1) (pre @ [(now, env, Changes t)]) =
        Some (out, effs, Inr st)" by simp
    from main_loop_split [OF this] obtain o1 e1 st1 o2 e2 where
      "main_loop st1 [(now, env, Changes t)] = Some (o2, e2, Inr st)" by blast
    from main_loop_Cons [OF this] obtain o3 e3 st2 where
      i: "main_iter now env st1 (Changes t) = Some (o3, e3, Inr st2)"
      and "main_loop st2 [] = Some ([], [], Inr st)" by auto
    then have e: "st2 = st" by simp
    from main_iter_step [OF i]
    have "lastChange st2 = t \<and> pending st2 (timer st2) = Some (now + rebuildDelay)"
      by (elim conjE) simp
    then show "lastChange st = t \<and> pending st (timer st) = Some (now + rebuildDelay)"
      unfolding e .
  qed
  have c3: "rebuildDelay = 200 * 1000000" by (simp add: rebuildDelay_def)
  have c4: "\<forall>k. \<exists>out' effs' st'.
      main_loop (main_init t0 t1) (take k ins) = Some (out', effs', Inr st') \<and>
      timer st' = 0 \<and> dom (pending st') \<subseteq> {0} \<and> card (dom (pending st')) \<le> 1 \<and>
      lastChange st' = last_change t1 (take k ins)"
  proof
    fix k
    from assms have "main_loop (main_init t0 t1) (take k ins @ drop k ins) =
        Some (out, effs, Inr st)" by simp
    from main_loop_split [OF this] obtain o1 e1 st1 where
      p: "main_loop (main_init t0 t1) (take k ins) = Some (o1, e1, Inr st1)" by blast
    from main_loop_inv [OF p] have a: "timer st1 = 0" and b: "dom (pending st1) \<subseteq> {0}"
      and c: "lastChange st1 = last_change t1 (take k ins)"
      by (simp_all add: main_init_fields)
    from b have "card (dom (pending st1)) \<le> card {0::nat}"
      by (intro card_mono) simp_all
    then have "card (dom (pending st1)) \<le> 1" by simp
    with p a b c show "\<exists>out' effs' st'.
        main_loop (main_init t0 t1) (take k ins) = Some (out', effs', Inr st') \<and>
        timer st' = 0 \<and> dom (pending st') \<subseteq> {0} \<and> card (dom (pending st')) \<le> 1 \<and>
        lastChange st' = last_change t1 (take k ins)"
      by blast
  qed
  from c1 c2 c3 c4 show ?thesis by (intro conjI)
qed

lemma example_loop:
  "main_loop (main_init 1000 1001)
       [(2000, example_env, Changes 100), (2100, example_env, Changes 50)] =
     Some ([], [],
       Inr \<lparr>lastRun = 0, lastChange = 50, timer = 0, pending = [0 \<mapsto> 200002100],
            timer_C = True\<rparr>)"
  by (simp add: main_iter_def main_select_def select_enabled_def expire_def main_init_def
      Timer_Reset_def rebuildDelay_def zeroTime_def fun_eq_iff)

theorem change_overwrites_witness:
  "main_loop (main_init 1000 1001)
       [(2000, example_env, Changes 100), (2100, example_env, Changes 50)] =
     Some ([], [],
       Inr \<lparr>lastRun = 0, lastChange = 50, timer = 0, pending = [0 \<mapsto> 200002100],
            timer_C = True\<rparr>) \<and>
   last_change 1001 [(2000, example_env, Changes 100), (2100, example_env, Changes 50)] = 50 \<and>
   pending \<lparr>lastRun = 0, lastChange = 50, timer = 0, pending = [0 \<mapsto> 200002100],
            timer_C = True\<rparr> 0 = Some (2100 + rebuildDelay)"
proof -
  let ?ins = "[(2000, example_env, Changes 100), (2100, example_env, Changes 50)]"
  let ?st = "\<lparr>lastRun = 0, lastChange = 50, timer = 0, pending = [0 \<mapsto> 200002100],
            timer_C = True\<rparr>"
  note t = change_overwrites [OF example_loop]
  from t [THEN conjunct1] have a: "last_change 1001 ?ins = 50" by simp
  have "?ins = [(2000, example_env, Changes 100)] @ [(2100, example_env, Changes 50)]" by simp
  from t [THEN conjunct2, THEN conjunct1, rule_format, OF this]
  have b: "pending ?st 0 = Some (2100 + rebuildDelay)" by simp
  from example_loop a b show ?thesis by (intro conjI)
qed

text \<open>A change stamped 50 after a change stamped 100: \<open>lastChange\<close> goes down to 50.\<close>

theorem change_decreases_counterexample:
  "map_option (\<lambda>r. map_sum id lastChange (snd (snd r)))
     (main_loop (main_init 1000 1001)
        [(2000, example_env, Changes 100), (2100, example_env, Changes 50)]) = Some (Inr 50) \<and>
   max (100::nat) 50 = 100"
  by (subst example_loop) simp

end
